theory Spec2Isabelle
  imports Main "HOL-Library.Multiset" "HOL-Library.Sublist" "HOL-Library.AList"
begin

section \<open>Go standard library functions called by the code\<close>

text \<open>
  The build package calls \<^verbatim>\<open>strings.Split\<close>, \<^verbatim>\<open>strings.LastIndex\<close>,
  \<^verbatim>\<open>strings.TrimSuffix\<close>, \<^verbatim>\<open>filepath.Join\<close>, \<^verbatim>\<open>filepath.Dir\<close>,
  \<^verbatim>\<open>filepath.Base\<close>, \<^verbatim>\<open>filepath.Ext\<close>, \<^verbatim>\<open>filepath.ToSlash\<close> and
  \<^verbatim>\<open>sort.Slice\<close>. They are given here as they behave on a Unix target, where the
  path separator is the slash and a path has no volume name. A Go string is a sequence of
  bytes, modelled as a \<^typ>\<open>string\<close>.
\<close>

datatype panic = SliceBoundsOutOfRange | IndexOutOfRange

text \<open>\<^verbatim>\<open>strings.Split(s, sep)\<close> for a one-byte separator: always at least one element.\<close>

fun strings_Split :: "string \<Rightarrow> char \<Rightarrow> string list" where
  "strings_Split [] sep = [[]]"
| "strings_Split (c # cs) sep =
     (if c = sep then [] # strings_Split cs sep
      else (case strings_Split cs sep of
              [] \<Rightarrow> [[c]]
            | w # ws \<Rightarrow> (c # w) # ws))"

text \<open>\<^verbatim>\<open>strings.Join(elems, sep)\<close>.\<close>

fun strings_Join :: "string list \<Rightarrow> string \<Rightarrow> string" where
  "strings_Join [] sep = []"
| "strings_Join [e] sep = e"
| "strings_Join (e # es) sep = e @ sep @ strings_Join es sep"

text \<open>\<^verbatim>\<open>strings.LastIndex(s, sep)\<close> for a one-byte separator: \<open>-1\<close> when absent.\<close>

definition strings_LastIndex :: "string \<Rightarrow> char \<Rightarrow> int" where
  "strings_LastIndex s sep =
     (if sep \<in> set s
      then int (length s) - 1 - int (length (takeWhile (\<lambda>c. c \<noteq> sep) (rev s)))
      else - 1)"

text \<open>\<^verbatim>\<open>strings.TrimSuffix(s, suffix)\<close>.\<close>

definition strings_TrimSuffix :: "string \<Rightarrow> string \<Rightarrow> string" where
  "strings_TrimSuffix s suf =
     (if length suf \<le> length s \<and> drop (length s - length suf) s = suf
      then take (length s - length suf) s else s)"

text \<open>
  The slice expressions \<^verbatim>\<open>s[:hi]\<close> and \<^verbatim>\<open>s[lo:]\<close> on a string: a bound that is
  negative or beyond the length panics.
\<close>

definition slice_to :: "string \<Rightarrow> int \<Rightarrow> panic + string" where
  "slice_to s hi =
     (if hi < 0 \<or> int (length s) < hi then Inl SliceBoundsOutOfRange
      else Inr (take (nat hi) s))"

definition slice_from :: "string \<Rightarrow> int \<Rightarrow> panic + string" where
  "slice_from s lo =
     (if lo < 0 \<or> int (length s) < lo then Inl SliceBoundsOutOfRange
      else Inr (drop (nat lo) s))"

text \<open>
  \<^verbatim>\<open>filepath.Clean\<close>: the loop over the bytes of the path, with the output buffer
  \<open>out\<close> and the index \<open>dotdot\<close> below which a \<^verbatim>\<open>..\<close> element must not backtrack.
\<close>

function backtrack :: "string \<Rightarrow> nat \<Rightarrow> nat \<Rightarrow> nat" where
  "backtrack out dotdot w =
     (if dotdot < w \<and> out ! w \<noteq> CHR ''/'' then backtrack out dotdot (w - 1) else w)"
  by pat_completeness auto
termination
  by (relation "measure (\<lambda>(out, dotdot, w). w)") auto

declare backtrack.simps [simp del]

function cleanLoop :: "bool \<Rightarrow> string \<Rightarrow> string \<Rightarrow> nat \<Rightarrow> string" where
  "cleanLoop rooted path out dotdot =
     (case path of
        [] \<Rightarrow> out
      | c # rest \<Rightarrow>
          if c = CHR ''/'' then cleanLoop rooted rest out dotdot
          else if c = CHR ''.'' \<and> (rest = [] \<or> hd rest = CHR ''/'')
            then cleanLoop rooted rest out dotdot
          else if c = CHR ''.'' \<and> hd rest = CHR ''.'' \<and> (tl rest = [] \<or> hd (tl rest) = CHR ''/'')
            then (if dotdot < length out
                  then cleanLoop rooted (tl rest)
                         (take (backtrack out dotdot (length out - 1)) out) dotdot
                  else if \<not> rooted
                  then cleanLoop rooted (tl rest)
                         ((if 0 < length out then out @ ''/'' else out) @ ''..'')
                         (length ((if 0 < length out then out @ ''/'' else out) @ ''..''))
                  else cleanLoop rooted (tl rest) out dotdot)
          else cleanLoop rooted (dropWhile (\<lambda>x. x \<noteq> CHR ''/'') rest)
                 ((if (rooted \<and> length out \<noteq> 1) \<or> (\<not> rooted \<and> length out \<noteq> 0)
                   then out @ ''/'' else out) @ c # takeWhile (\<lambda>x. x \<noteq> CHR ''/'') rest)
                 dotdot)"
  by pat_completeness auto
termination
  by (relation "measure (\<lambda>(rooted, path, out, dotdot). length path)")
     (simp_all add: less_Suc_eq_le length_dropWhile_le)

declare cleanLoop.simps [simp del]

definition filepath_Clean :: "string \<Rightarrow> string" where
  "filepath_Clean path =
     (if path = [] then ''.''
      else (let rooted = (hd path = CHR ''/'');
                out = (if rooted then cleanLoop True (tl path) ''/'' 1
                       else cleanLoop False path [] 0)
            in if out = [] then ''.'' else out))"

text \<open>\<^verbatim>\<open>filepath.Join\<close>: empty elements are ignored, the result is cleaned.\<close>

definition filepath_Join :: "string list \<Rightarrow> string" where
  "filepath_Join elem =
     (case dropWhile (\<lambda>e. e = []) elem of
        [] \<Rightarrow> []
      | e # es \<Rightarrow> filepath_Clean (strings_Join (e # es) ''/''))"

text \<open>\<^verbatim>\<open>filepath.Dir\<close>, \<^verbatim>\<open>filepath.Base\<close>, \<^verbatim>\<open>filepath.Ext\<close> and \<^verbatim>\<open>filepath.ToSlash\<close>.\<close>

definition filepath_Dir :: "string \<Rightarrow> string" where
  "filepath_Dir path =
     filepath_Clean (rev (dropWhile (\<lambda>c. c \<noteq> CHR ''/'') (rev path)))"

definition filepath_Base :: "string \<Rightarrow> string" where
  "filepath_Base path =
     (if path = [] then ''.''
      else (let stripped = rev (dropWhile (\<lambda>c. c = CHR ''/'') (rev path));
                base = rev (takeWhile (\<lambda>c. c \<noteq> CHR ''/'') (rev stripped))
            in if base = [] then ''/'' else base))"

definition filepath_Ext :: "string \<Rightarrow> string" where
  "filepath_Ext path =
     (let tail = takeWhile (\<lambda>c. c \<noteq> CHR ''/'') (rev path)
      in if CHR ''.'' \<in> set tail
         then rev (takeWhile (\<lambda>c. c \<noteq> CHR ''.'') tail @ ''.'')
         else [])"

definition filepath_ToSlash :: "string \<Rightarrow> string" where
  "filepath_ToSlash path = path"

text \<open>
  \<^verbatim>\<open>sort.Slice\<close> promises a slice ordered by the given \<^verbatim>\<open>less\<close> and makes no promise
  of stability; the functions that call it take the sort as a parameter. On a slice of at
  most six elements every Go release runs the insertion sort below: each element in turn
  is swapped towards the front while it is \<^verbatim>\<open>less\<close> than its left neighbour. The
  already sorted front part is held in reverse, so that its head is the left neighbour.
\<close>

fun insertionSwaps :: "('a \<Rightarrow> 'a \<Rightarrow> bool) \<Rightarrow> 'a \<Rightarrow> 'a list \<Rightarrow> 'a list" where
  "insertionSwaps lessFn x [] = [x]"
| "insertionSwaps lessFn x (y # front) =
     (if lessFn x y then y # insertionSwaps lessFn x front else x # y # front)"

definition insertionSort :: "('a \<Rightarrow> 'a \<Rightarrow> bool) \<Rightarrow> 'a list \<Rightarrow> 'a list" where
  "insertionSort lessFn data = rev (foldl (\<lambda>front x. insertionSwaps lessFn x front) [] data)"

text \<open>
  A sort that keeps the promise of \<^verbatim>\<open>sort.Slice\<close> and is not stable: the insertion
  sort of the reversed slice.
\<close>

definition tieReversingSort :: "('a \<Rightarrow> 'a \<Rightarrow> bool) \<Rightarrow> 'a list \<Rightarrow> 'a list" where
  "tieReversingSort lessFn data = insertionSort lessFn (rev data)"

section \<open>The domain model (package model)\<close>

text \<open>
  The package \<^verbatim>\<open>model\<close> is not among the sources; the records below hold the fields
  the build package reads and writes. \<^verbatim>\<open>model.Page\<close> is embedded in every page type,
  which a record extension expresses. The creation date is an instant on the time line.
  A pointer to a registered page that is stored in an article's back-reference list is
  kept as the pair of route path and article id under which the page is looked up;
  \<open>None\<close> is the nil pointer.
\<close>

record Page =
  Path :: string

type_synonym page_ptr = "string \<times> string"

record Article =
  ID :: string
  Title :: string
  Description :: string
  Date :: int
  Hide :: bool
  Related :: "string list"
  RelatedPages :: "page_ptr option list"

record ArticlePage = Page +
  Article :: Article

record ArticleListPage = Page +
  Articles :: "Article list"

record IndexPage = Page +
  Article :: Article
  ArticlePages :: "ArticlePage list"

text \<open>
  The article pages of a list page are pointers that may be nil: \<open>None\<close> is a nil entry.
\<close>

record ListPage = Page +
  ArticlePages :: "ArticlePage option list"

section \<open>The route tree (build/site.go)\<close>

text \<open>
  A \<^verbatim>\<open>Route\<close> holds its pages, an optional list page and the map of its children. The
  map is an association list with one entry per key: its order stands for the order in
  which Go happens to iterate over the map.
\<close>

datatype Route =
  Route (Pages: "ArticlePage list") (ListPage: "ArticleListPage option")
        (Children: "(string \<times> Route) list")

text \<open>
  Modelled from the spec: \<^verbatim>\<open>registerIndexPage\<close> and the place where it keeps an index
  page are not among the sources; the field \<open>IndexPages\<close> holds the registered index pages
  per route path. Of the fields that \<^verbatim>\<open>Site\<close> has in the source, the functions below use
  the root route only.
\<close>

record Site =
  root :: Route
  IndexPages :: "(string \<times> IndexPage) list"

definition newSite :: Site where
  "newSite = \<lparr>root = Route [] None [], IndexPages = []\<rparr>"

definition newRoute :: Route where
  "newRoute = Route [] (Some \<lparr>Path = [], Articles = []\<rparr>) []"

text \<open>The assignment \<^verbatim>\<open>route.ListPage.Path = path\<close> on a freshly created route.\<close>

definition setListPagePath :: "Route \<Rightarrow> string \<Rightarrow> Route" where
  "setListPagePath route path =
     Route (Pages route) (map_option (\<lambda>lp. lp\<lparr>Path := path\<rparr>) (ListPage route))
       (Children route)"

text \<open>
  The loop of \<^verbatim>\<open>registerPage\<close>, from index \<open>i\<close> with \<open>node\<close> the current route. The
  result is the current route after the remaining iterations.
\<close>

function registerLoop :: "string list \<Rightarrow> nat \<Rightarrow> ArticlePage \<Rightarrow> Route \<Rightarrow> Route" where
  "registerLoop segments i page node =
     (if length segments \<le> i then node
      else
        (let seg = segments ! i;
             child = (case map_of (Children node) seg of
                        Some c \<Rightarrow> c
                      | None \<Rightarrow> setListPagePath newRoute (filepath_Join (take i segments)));
             child' = (if i = length segments - 1
                       then Route (Pages child @ [page]) (ListPage child) (Children child)
                       else registerLoop segments (i + 1) page child)
         in Route (Pages node) (ListPage node) (AList.update seg child' (Children node))))"
  by pat_completeness auto
termination
  by (relation "measure (\<lambda>(segments, i, page, node). length segments - i)") auto

declare registerLoop.simps [simp del]

definition registerPage :: "Site \<Rightarrow> ArticlePage \<Rightarrow> Site" where
  "registerPage s page =
     s\<lparr>root := registerLoop (strings_Split (Path page) CHR ''/'') 0 page (root s)\<rparr>"

text \<open>
  \<^verbatim>\<open>walkRoute\<close> and \<^verbatim>\<open>WalkRoutes\<close>. The callback receives the route and works on
  the state \<open>st\<close> it has captured; the walker itself reads the tree and assigns to none of
  its fields, so it returns the callback's state only. The depth is a Go \<^verbatim>\<open>int\<close>; a tree
  in memory is far shallower than its range, so the counter cannot wrap around.
\<close>

function walkRoute :: "Route \<Rightarrow> (Route \<Rightarrow> 's \<Rightarrow> 's) \<Rightarrow> int \<Rightarrow> int \<Rightarrow> 's \<Rightarrow> 's" where
  "walkRoute route walkFn depth currentDepth st =
     (if depth \<noteq> - 1 \<and> currentDepth = depth then st
      else fold (\<lambda>child st'. walkRoute (snd child) walkFn depth (currentDepth + 1)
                                (walkFn (snd child) st'))
             (Children route) st)"
  by pat_completeness auto
termination
proof (relation "measure (\<lambda>(route, walkFn, depth, currentDepth, st). size route)")
  show "wf (measure (\<lambda>(route, walkFn, depth, currentDepth, st). size route))"
    by simp
next
  fix route :: Route and walkFn :: "Route \<Rightarrow> 's \<Rightarrow> 's"
    and depth currentDepth :: int and st :: 's and child :: "string \<times> Route" and st' :: 's
  assume "child \<in> set (Children route)"
  then have "size (snd child) < size route"
  proof (cases route)
    case (Route ps lp cs)
    have "c \<in> set cs \<Longrightarrow> size (snd c) < Suc (size_list (size_prod (\<lambda>k. 0) size) cs)"
      for c :: "string \<times> Route" and cs
      by (induction cs) auto
    with Route \<open>child \<in> set (Children route)\<close> show ?thesis by simp
  qed
  then show "((snd child, walkFn, depth, currentDepth + 1, walkFn (snd child) st'),
              (route, walkFn, depth, currentDepth, st))
             \<in> measure (\<lambda>(route, walkFn, depth, currentDepth, st). size route)"
    by simp
qed

declare walkRoute.simps [simp del]

definition WalkRoutes :: "Site \<Rightarrow> (Route \<Rightarrow> 's \<Rightarrow> 's) \<Rightarrow> int \<Rightarrow> 's \<Rightarrow> 's" where
  "WalkRoutes s walkFn depth st = walkRoute (root s) walkFn depth 0 st"

subsection \<open>Observing the tree\<close>

text \<open>
  The route reached from a node along a list of keys, the pages registered there, and the
  list page stored there. A route's full path is the list of keys that leads to it.
\<close>

fun nodeAt :: "Route \<Rightarrow> string list \<Rightarrow> Route option" where
  "nodeAt node [] = Some node"
| "nodeAt node (k # ks) =
     (case map_of (Children node) k of None \<Rightarrow> None | Some c \<Rightarrow> nodeAt c ks)"

definition pagesAt :: "Route \<Rightarrow> string list \<Rightarrow> ArticlePage list" where
  "pagesAt node ks = (case nodeAt node ks of None \<Rightarrow> [] | Some n \<Rightarrow> Pages n)"

definition listPageAt :: "Route \<Rightarrow> string list \<Rightarrow> ArticleListPage option option" where
  "listPageAt node ks = map_option ListPage (nodeAt node ks)"

text \<open>The route that iteration \<open>i\<close> of \<^verbatim>\<open>registerPage\<close> descends into.\<close>

definition childOf :: "string list \<Rightarrow> nat \<Rightarrow> Route \<Rightarrow> Route" where
  "childOf segments i node =
     (case map_of (Children node) (segments ! i) of
        Some c \<Rightarrow> c
      | None \<Rightarrow> setListPagePath newRoute (filepath_Join (take i segments)))"

text \<open>
  A map has one entry per key: the association lists of a well-formed tree have distinct
  keys.
\<close>

function wfRoute :: "Route \<Rightarrow> bool" where
  "wfRoute route =
     (distinct (map fst (Children route)) \<and> list_all (\<lambda>child. wfRoute (snd child)) (Children route))"
  by pat_completeness auto
termination
proof (relation "measure size")
  show "wf (measure (size :: Route \<Rightarrow> nat))"
    by simp
next
  fix route :: Route and child :: "string \<times> Route"
  assume "child \<in> set (Children route)"
  then have "size (snd child) < size route"
  proof (cases route)
    case (Route ps lp cs)
    have "c \<in> set cs \<Longrightarrow> size (snd c) < Suc (size_list (size_prod (\<lambda>k. 0) size) cs)"
      for c :: "string \<times> Route" and cs
      by (induction cs) auto
    with Route \<open>child \<in> set (Children route)\<close> show ?thesis by simp
  qed
  then show "(snd child, route) \<in> measure size"
    by simp
qed

declare wfRoute.simps [simp del]

text \<open>
  The full paths, relative to \<open>route\<close>, of the routes that a walk started at
  \<open>currentDepth\<close> reaches, in the order of the walk.
\<close>

function visitPaths :: "Route \<Rightarrow> int \<Rightarrow> int \<Rightarrow> string list list" where
  "visitPaths route depth currentDepth =
     (if depth \<noteq> - 1 \<and> currentDepth = depth then []
      else concat (map (\<lambda>child. [fst child] #
                          map ((#) (fst child)) (visitPaths (snd child) depth (currentDepth + 1)))
                     (Children route)))"
  by pat_completeness auto
termination
proof (relation "measure (\<lambda>(route, depth, currentDepth). size route)")
  show "wf (measure (\<lambda>(route, depth, currentDepth). size (route :: Route)))"
    by simp
next
  fix route :: Route and depth currentDepth :: int and child :: "string \<times> Route"
  assume "child \<in> set (Children route)"
  then have "size (snd child) < size route"
  proof (cases route)
    case (Route ps lp cs)
    have "c \<in> set cs \<Longrightarrow> size (snd c) < Suc (size_list (size_prod (\<lambda>k. 0) size) cs)"
      for c :: "string \<times> Route" and cs
      by (induction cs) auto
    with Route \<open>child \<in> set (Children route)\<close> show ?thesis by simp
  qed
  then show "((snd child, depth, currentDepth + 1), (route, depth, currentDepth))
             \<in> measure (\<lambda>(route, depth, currentDepth). size route)"
    by simp
qed

declare visitPaths.simps [simp del]

section \<open>The builder (package build)\<close>

text \<open>
  The derivation passes work on the routes through
  \<^verbatim>\<open>WalkRoutes(func(r string, i *RouteInfo))\<close>. Neither this variant of the walker nor
  the type \<^verbatim>\<open>RouteInfo\<close> is among the sources: the record holds the three fields the
  passes use, and the site model they walk is the sequence of the routes, each with its
  path. An article belongs to one registered page, so a page carries its article by value.
\<close>

record RouteInfo =
  Pages :: "ArticlePage list"
  IndexPage :: "IndexPage option"
  ListPage :: "ListPage option"

type_synonym routes = "(string \<times> RouteInfo) list"

text \<open>
  Modelled from the spec: \<^verbatim>\<open>WalkRoutes\<close> with a callback on \<^verbatim>\<open>RouteInfo\<close> is not among
  the sources. It visits every route and invokes the callback once per route. The callback
  is a closure: it sees the site model as it is when called, it may assign to the visited
  \<^verbatim>\<open>RouteInfo\<close>, it may change the state \<open>st\<close> it has captured, and it may panic,
  which ends the walk.
\<close>

fun walkInfos ::
  "(routes \<Rightarrow> string \<Rightarrow> RouteInfo \<Rightarrow> 's \<Rightarrow> panic + RouteInfo \<times> 's) \<Rightarrow>
   routes \<Rightarrow> routes \<Rightarrow> 's \<Rightarrow> panic + routes \<times> 's" where
  "walkInfos walkFn visited [] st = Inr (visited, st)"
| "walkInfos walkFn visited ((r, i) # rest) st =
     (case walkFn (visited @ (r, i) # rest) r i st of
        Inl p \<Rightarrow> Inl p
      | Inr (i', st') \<Rightarrow> walkInfos walkFn (visited @ [(r, i')]) rest st')"

text \<open>
  Modelled from the spec: \<^verbatim>\<open>WalkRoutes\<close> as the passes call it, the walk of all routes
  from the first one.
\<close>

definition WalkRoutesInfo ::
  "(routes \<Rightarrow> string \<Rightarrow> RouteInfo \<Rightarrow> 's \<Rightarrow> panic + RouteInfo \<times> 's) \<Rightarrow>
   routes \<Rightarrow> 's \<Rightarrow> panic + routes \<times> 's" where
  "WalkRoutesInfo walkFn model st = walkInfos walkFn [] model st"

subsection \<open>buildPage\<close>

datatype registerMode = NoRegister | DirectRegister

text \<open>What a call returns instead of a page: the parser's error, or a panic.\<close>

datatype 'e failure = Error 'e | Panic panic

text \<open>
  Modelled from the spec: \<^verbatim>\<open>registerIndexPage\<close> is not among the sources. The page is
  registered as the index page of the route named by its path.
\<close>

definition registerIndexPage :: "Site \<Rightarrow> IndexPage \<Rightarrow> Site" where
  "registerIndexPage s indexPage =
     s\<lparr>IndexPages := AList.update (Path indexPage) indexPage (IndexPages s)\<rparr>"

text \<open>
  The condition \<^verbatim>\<open>b.ctx.BuildPath == "." && file[:len(config.ContentDir)] == config.ContentDir\<close>:
  the slice expression is evaluated only when the build path is a dot.
\<close>

definition simplifiedPath :: "string \<Rightarrow> string \<Rightarrow> string \<Rightarrow> panic + bool" where
  "simplifiedPath buildPath contentDir file =
     (if buildPath = ''.''
      then (case slice_to file (int (length contentDir)) of
              Inl p \<Rightarrow> Inl p
            | Inr front \<Rightarrow> Inr (front = contentDir))
      else Inr False)"

text \<open>
  \<^verbatim>\<open>buildPage\<close>. The parser of the build context, the constant
  \<^verbatim>\<open>config.ContentDir\<close> and \<^verbatim>\<open>registerIndexPage\<close> are not among the sources and are
  parameters; \<open>buildPath\<close> is \<^verbatim>\<open>b.ctx.BuildPath\<close> and \<open>model\<close> is \<^verbatim>\<open>b.model\<close>. The mutex
  makes each registration one step; calls are taken one after the other here. The result
  is the site model after the call and what the call returns.
\<close>

definition buildPage ::
  "('src \<Rightarrow> 'e + Article) \<Rightarrow> string \<Rightarrow> (Site \<Rightarrow> IndexPage \<Rightarrow> Site) \<Rightarrow> string \<Rightarrow>
   Site \<Rightarrow> 'src \<Rightarrow> string \<Rightarrow> registerMode \<Rightarrow> Site \<times> ('e failure + ArticlePage)" where
  "buildPage ParseArticle ContentDir registerIndex buildPath model source file mode =
     (case ParseArticle source of
        Inl err \<Rightarrow> (model, Inl (Error err))
      | Inr article \<Rightarrow>
          (case simplifiedPath buildPath ContentDir file of
             Inl p \<Rightarrow> (model, Inl (Panic p))
           | Inr simplified \<Rightarrow>
               (let contentDirLen =
                      (if simplified then int (length ContentDir)
                       else int (length (buildPath @ ''/'' @ ContentDir)))
                in case slice_from file contentDirLen of
                     Inl p \<Rightarrow> (model, Inl (Panic p))
                   | Inr relativePath \<Rightarrow>
                       (let route = filepath_ToSlash (filepath_Dir relativePath);
                            article' = article
                              \<lparr>ID := strings_TrimSuffix (filepath_Base file) (filepath_Ext file)\<rparr>
                        in if ID article' = ''index''
                           then (registerIndex model
                                   \<lparr>Path = route, IndexPage.Article = article',
                                     IndexPage.ArticlePages = []\<rparr>,
                                 Inr \<lparr>Path = route, ArticlePage.Article = article'\<rparr>)
                           else (registerPage model \<lparr>Path = route, ArticlePage.Article = article'\<rparr>,
                                 Inr \<lparr>Path = route, ArticlePage.Article = article'\<rparr>)))))"

subsection \<open>buildListPages\<close>

text \<open>The \<^verbatim>\<open>less\<close> function given to \<^verbatim>\<open>sort.Slice\<close>: the date of \<open>a\<close> is after that of \<open>b\<close>.\<close>

definition dateAfter :: "ArticlePage \<Rightarrow> ArticlePage \<Rightarrow> bool" where
  "dateAfter a b = (Date (ArticlePage.Article b) < Date (ArticlePage.Article a))"

text \<open>
  The loop \<^verbatim>\<open>for n, page := range i.Pages\<close> that stores a page at index \<open>n\<close> of the list
  page's slice unless its article is hidden.
\<close>

fun fillArticlePages ::
  "nat \<Rightarrow> ArticlePage list \<Rightarrow> ArticlePage option list \<Rightarrow> panic + ArticlePage option list" where
  "fillArticlePages n [] articlePages = Inr articlePages"
| "fillArticlePages n (page # pages) articlePages =
     (if Hide (ArticlePage.Article page) then fillArticlePages (n + 1) pages articlePages
      else if n < length articlePages
      then fillArticlePages (n + 1) pages (articlePages[n := Some page])
      else Inl IndexOutOfRange)"

definition listPageFn ::
  "((ArticlePage \<Rightarrow> ArticlePage \<Rightarrow> bool) \<Rightarrow> ArticlePage list \<Rightarrow> ArticlePage list) \<Rightarrow> bool \<Rightarrow>
   routes \<Rightarrow> string \<Rightarrow> RouteInfo \<Rightarrow> unit \<Rightarrow> panic + RouteInfo \<times> unit" where
  "listPageFn sortSlice sortPages model r i st =
     (if IndexPage i \<noteq> None then Inr (i, st)
      else
        (let articlePages = replicate (length (Pages i)) None;
             pages = (if sortPages then sortSlice dateAfter (Pages i) else Pages i)
         in case fillArticlePages 0 pages articlePages of
              Inl p \<Rightarrow> Inl p
            | Inr filled \<Rightarrow>
                Inr (i\<lparr>Pages := pages,
                        ListPage := Some \<lparr>Path = r, ListPage.ArticlePages = filled\<rparr>\<rparr>, st)))"

definition buildListPages ::
  "((ArticlePage \<Rightarrow> ArticlePage \<Rightarrow> bool) \<Rightarrow> ArticlePage list \<Rightarrow> ArticlePage list) \<Rightarrow> bool \<Rightarrow>
   routes \<Rightarrow> panic + routes" where
  "buildListPages sortSlice sortPages model =
     map_sum id fst (WalkRoutesInfo (listPageFn sortSlice sortPages) model ())"

subsection \<open>addArticlePagesToIndexPages\<close>

text \<open>
  The inner callback appends the visible pages of the visited route to the aggregate of
  the index page that the outer callback holds; the captured state is that aggregate.
\<close>

definition appendVisible ::
  "routes \<Rightarrow> string \<Rightarrow> RouteInfo \<Rightarrow> ArticlePage list \<Rightarrow> panic + RouteInfo \<times> ArticlePage list" where
  "appendVisible model r2 i2 articlePages =
     Inr (i2, foldl (\<lambda>acc page. if Hide (ArticlePage.Article page) then acc else acc @ [page])
                articlePages (Pages i2))"

definition indexPageFn ::
  "routes \<Rightarrow> string \<Rightarrow> RouteInfo \<Rightarrow> unit \<Rightarrow> panic + RouteInfo \<times> unit" where
  "indexPageFn model r i st =
     (case IndexPage i of
        None \<Rightarrow> Inr (i, st)
      | Some indexPage \<Rightarrow>
          (case WalkRoutesInfo appendVisible model (IndexPage.ArticlePages indexPage) of
             Inl p \<Rightarrow> Inl p
           | Inr (model', articlePages) \<Rightarrow>
               Inr (i\<lparr>IndexPage := Some (indexPage\<lparr>IndexPage.ArticlePages := articlePages\<rparr>)\<rparr>,
                    st)))"

definition addArticlePagesToIndexPages :: "routes \<Rightarrow> panic + routes" where
  "addArticlePagesToIndexPages model = map_sum id fst (WalkRoutesInfo indexPageFn model ())"

subsection \<open>buildRelated\<close>

text \<open>
  \<^verbatim>\<open>resolvePath\<close> is not among the sources and is a parameter: given the site model, a
  route path and an article id it returns a page pointer and an error. The loop over the
  related links of one article, the loop over the pages of one route, and the pass.
\<close>

type_synonym resolver = "routes \<Rightarrow> string \<Rightarrow> string \<Rightarrow> page_ptr option \<times> string option"

fun relatedLoop :: "(string \<Rightarrow> string \<Rightarrow> page_ptr option \<times> string option) \<Rightarrow> string list \<Rightarrow>
    Article \<Rightarrow> panic + Article" where
  "relatedLoop resolve [] article = Inr article"
| "relatedLoop resolve (link # links) article =
     (case slice_to link (strings_LastIndex link CHR ''/'') of
        Inl p \<Rightarrow> Inl p
      | Inr path \<Rightarrow>
          (case slice_from link (int (length path) + 1) of
             Inl p \<Rightarrow> Inl p
           | Inr ident \<Rightarrow>
               relatedLoop resolve links
                 (article\<lparr>RelatedPages := RelatedPages article @ [fst (resolve path ident)]\<rparr>)))"

fun relatedPages :: "(string \<Rightarrow> string \<Rightarrow> page_ptr option \<times> string option) \<Rightarrow>
    ArticlePage list \<Rightarrow> panic + ArticlePage list" where
  "relatedPages resolve [] = Inr []"
| "relatedPages resolve (p # ps) =
     (case relatedLoop resolve (Related (ArticlePage.Article p)) (ArticlePage.Article p) of
        Inl e \<Rightarrow> Inl e
      | Inr article \<Rightarrow>
          (case relatedPages resolve ps of
             Inl e \<Rightarrow> Inl e
           | Inr ps' \<Rightarrow> Inr (p\<lparr>ArticlePage.Article := article\<rparr> # ps')))"

definition relatedFn ::
  "resolver \<Rightarrow> routes \<Rightarrow> string \<Rightarrow> RouteInfo \<Rightarrow> unit \<Rightarrow> panic + RouteInfo \<times> unit" where
  "relatedFn resolvePath model r i st =
     (case relatedPages (resolvePath model) (Pages i) of
        Inl p \<Rightarrow> Inl p
      | Inr pages \<Rightarrow> Inr (i\<lparr>Pages := pages\<rparr>, st))"

definition buildRelated :: "resolver \<Rightarrow> routes \<Rightarrow> panic + routes" where
  "buildRelated resolvePath model =
     map_sum id fst (WalkRoutesInfo (relatedFn resolvePath) model ())"

text \<open>
  Modelled from the spec: \<^verbatim>\<open>resolvePath\<close> is not among the sources. It resolves the
  route path to its route and fails with a not-found condition if the route is missing;
  in the route it finds the page with the matching article id. On failure the page
  pointer is nil.
\<close>

definition resolvePath :: resolver where
  "resolvePath model path ident =
     (case map_of model path of
        None \<Rightarrow> (None, Some ''route not found'')
      | Some i \<Rightarrow>
          (case find (\<lambda>p. ID (ArticlePage.Article p) = ident) (Pages i) of
             None \<Rightarrow> (None, Some ''article not found'')
           | Some p \<Rightarrow> (Some (Path p, ID (ArticlePage.Article p)), None)))"

subsection \<open>Notions used to state the properties of the passes\<close>

text \<open>What \<^verbatim>\<open>sort.Slice\<close> promises for the \<^verbatim>\<open>less\<close> function of \<^verbatim>\<open>buildListPages\<close>.\<close>

definition sortsByDate ::
  "((ArticlePage \<Rightarrow> ArticlePage \<Rightarrow> bool) \<Rightarrow> ArticlePage list \<Rightarrow> ArticlePage list) \<Rightarrow> bool" where
  "sortsByDate sortSlice \<longleftrightarrow>
     (\<forall>pages. mset (sortSlice dateAfter pages) = mset pages \<and>
              sorted_wrt (\<lambda>a b. \<not> dateAfter b a) (sortSlice dateAfter pages))"

text \<open>The entry that the loop of \<^verbatim>\<open>buildListPages\<close> leaves at the index of a page.\<close>

definition slot :: "ArticlePage \<Rightarrow> ArticlePage option" where
  "slot page = (if Hide (ArticlePage.Article page) then None else Some page)"

definition visible :: "ArticlePage \<Rightarrow> bool" where
  "visible page = (\<not> Hide (ArticlePage.Article page))"

text \<open>What the callback of \<^verbatim>\<open>buildListPages\<close> does to one route.\<close>

definition listPageOf ::
  "((ArticlePage \<Rightarrow> ArticlePage \<Rightarrow> bool) \<Rightarrow> ArticlePage list \<Rightarrow> ArticlePage list) \<Rightarrow> bool \<Rightarrow>
   string \<Rightarrow> RouteInfo \<Rightarrow> RouteInfo" where
  "listPageOf sortSlice sortPages r i =
     (if IndexPage i \<noteq> None then i
      else i\<lparr>Pages := (if sortPages then sortSlice dateAfter (Pages i) else Pages i),
             ListPage := Some \<lparr>Path = r, ListPage.ArticlePages =
               map slot (if sortPages then sortSlice dateAfter (Pages i) else Pages i)\<rparr>\<rparr>)"

text \<open>The entries of a list page that are not nil, in order.\<close>

definition entries :: "ListPage \<Rightarrow> ArticlePage list" where
  "entries listPage = List.map_filter id (ListPage.ArticlePages listPage)"

text \<open>The visible pages of all routes of the site model, in the order of the walk.\<close>

definition visiblePages :: "routes \<Rightarrow> ArticlePage list" where
  "visiblePages model = concat (map (\<lambda>(r, i). filter visible (Pages i)) model)"

text \<open>What the index page pass does to one route, given the pages to add.\<close>

definition addToIndex :: "ArticlePage list \<Rightarrow> string \<times> RouteInfo \<Rightarrow> string \<times> RouteInfo" where
  "addToIndex pages route =
     (case IndexPage (snd route) of
        None \<Rightarrow> route
      | Some indexPage \<Rightarrow>
          (fst route,
           (snd route)\<lparr>IndexPage :=
              Some (indexPage\<lparr>IndexPage.ArticlePages :=
                      IndexPage.ArticlePages indexPage @ pages\<rparr>)\<rparr>))"

text \<open>Every related link of every page of every route contains a slash.\<close>

definition linksHaveSlash :: "routes \<Rightarrow> bool" where
  "linksHaveSlash model =
     list_all (\<lambda>(r, i).
        list_all (\<lambda>p. list_all (\<lambda>link. CHR ''/'' \<in> set link) (Related (ArticlePage.Article p)))
          (Pages i)) model"

text \<open>The number of leading bytes that \<^verbatim>\<open>buildPage\<close> drops from the file path.\<close>

definition contentDirLen :: "string \<Rightarrow> string \<Rightarrow> string \<Rightarrow> nat" where
  "contentDirLen buildPath ContentDir file =
     (if buildPath = ''.'' \<and> take (length ContentDir) file = ContentDir then length ContentDir
      else length (buildPath @ ''/'' @ ContentDir))"

section \<open>Example inputs\<close>

definition exArticle :: "string \<Rightarrow> int \<Rightarrow> bool \<Rightarrow> string list \<Rightarrow> Article" where
  "exArticle ident date hide related =
     \<lparr>ID = ident, Title = [], Description = [], Date = date, Hide = hide,
      Related = related, RelatedPages = []\<rparr>"

definition exPage :: "string \<Rightarrow> string \<Rightarrow> int \<Rightarrow> bool \<Rightarrow> string list \<Rightarrow> ArticlePage" where
  "exPage path ident date hide related =
     \<lparr>Path = path, ArticlePage.Article = exArticle ident date hide related\<rparr>"

definition exRoute :: "ArticlePage list \<Rightarrow> RouteInfo" where
  "exRoute pages = \<lparr>Pages = pages, IndexPage = None, ListPage = None\<rparr>"

definition exIndexPage :: "string \<Rightarrow> ArticlePage list \<Rightarrow> IndexPage" where
  "exIndexPage path pages =
     \<lparr>Path = path, IndexPage.Article = exArticle ''index'' 0 False [],
      IndexPage.ArticlePages = pages\<rparr>"

definition exIndexRoute :: "string \<Rightarrow> ArticlePage list \<Rightarrow> RouteInfo" where
  "exIndexRoute path pages =
     \<lparr>Pages = [], IndexPage = Some (exIndexPage path pages), ListPage = None\<rparr>"

text \<open>A route with an index page that has pages of its own.\<close>

definition exIndexRouteWith :: "string \<Rightarrow> ArticlePage list \<Rightarrow> RouteInfo" where
  "exIndexRouteWith path pages =
     \<lparr>Pages = pages, IndexPage = Some (exIndexPage path []), ListPage = None\<rparr>"

definition exParser :: "string \<Rightarrow> string + Article" where
  "exParser source =
     (if source = [] then Inl ''empty source'' else Inr (exArticle [] 0 False []))"

text \<open>A site with the routes \<^verbatim>\<open>blog\<close>, \<^verbatim>\<open>blog/coffee\<close> and \<^verbatim>\<open>about\<close>.\<close>

definition exSite :: Site where
  "exSite =
     \<lparr>root = Route [] None
        [(''blog'', Route [] (Some \<lparr>Path = [], Articles = []\<rparr>)
            [(''coffee'', Route [exPage ''blog/coffee'' ''post-1'' 1 False []]
                (Some \<lparr>Path = ''blog'', Articles = []\<rparr>) [])]),
         (''about'', Route [exPage ''about'' ''me'' 2 False []]
            (Some \<lparr>Path = [], Articles = []\<rparr>) [])],
      IndexPages = []\<rparr>"

section \<open>Properties of the route tree\<close>

lemma strings_Split_nonempty: "strings_Split s sep \<noteq> []"
  by (induction s) (simp_all split: list.split)

lemma fresh_route:
  "setListPagePath newRoute p = Route [] (Some \<lparr>Path = p, Articles = []\<rparr>) []"
  by (simp add: setListPagePath_def newRoute_def)

lemma nodeAt_leaf: "nodeAt (Route ps lp []) ks = (if ks = [] then Some (Route ps lp []) else None)"
  by (cases ks) simp_all

lemma registerLoop_unfold:
  "i < length segments \<Longrightarrow>
   registerLoop segments i page node =
     Route (Route.Pages node) (Route.ListPage node)
       (AList.update (segments ! i)
          (if i = length segments - 1
           then Route (Route.Pages (childOf segments i node) @ [page])
                  (Route.ListPage (childOf segments i node)) (Children (childOf segments i node))
           else registerLoop segments (i + 1) page (childOf segments i node))
          (Children node))"
  unfolding registerLoop.simps [of segments i page node] Let_def childOf_def by simp

lemma registerLoop_last:
  "length segments = Suc i \<Longrightarrow>
   registerLoop segments i page node =
     Route (Route.Pages node) (Route.ListPage node)
       (AList.update (segments ! i)
          (Route (Route.Pages (childOf segments i node) @ [page])
             (Route.ListPage (childOf segments i node)) (Children (childOf segments i node)))
          (Children node))"
  by (simp add: registerLoop_unfold [of i segments page node])

lemma registerLoop_inner:
  assumes "Suc i < length segments"
  shows "registerLoop segments i page node =
     Route (Route.Pages node) (Route.ListPage node)
       (AList.update (segments ! i)
          (registerLoop segments (Suc i) page (childOf segments i node))
          (Children node))"
proof -
  have "i < length segments" and "i \<noteq> length segments - 1"
    using assms by arith+
  then show ?thesis
    by (simp add: registerLoop_unfold [of i segments page node])
qed

lemma registerLoop_Pages:
  "Route.Pages (registerLoop segments i page node) = Route.Pages node"
  by (simp add: registerLoop.simps [of segments i page node] Let_def)

lemma registerLoop_ListPage:
  "Route.ListPage (registerLoop segments i page node) = Route.ListPage node"
  by (simp add: registerLoop.simps [of segments i page node] Let_def)

lemma nodeAt_reg_other:
  "i < length segments \<Longrightarrow> k \<noteq> segments ! i \<Longrightarrow>
   nodeAt (registerLoop segments i page node) (k # ks) = nodeAt node (k # ks)"
  by (cases "length segments = Suc i")
     (simp_all add: registerLoop_last registerLoop_inner update_conv')

lemma nodeAt_reg_last:
  "length segments = Suc i \<Longrightarrow>
   nodeAt (registerLoop segments i page node) (segments ! i # ks) =
     nodeAt (Route (Route.Pages (childOf segments i node) @ [page])
               (Route.ListPage (childOf segments i node)) (Children (childOf segments i node))) ks"
  by (simp add: registerLoop_last update_conv')

lemma nodeAt_reg_inner:
  "Suc i < length segments \<Longrightarrow>
   nodeAt (registerLoop segments i page node) (segments ! i # ks) =
     nodeAt (registerLoop segments (Suc i) page (childOf segments i node)) ks"
  by (simp add: registerLoop_inner update_conv')

lemma nodeAt_childOf:
  "nodeAt node (segments ! i # ks) =
     (if map_of (Children node) (segments ! i) = None then None
      else nodeAt (childOf segments i node) ks)"
  by (auto simp: childOf_def split: option.splits)

lemma nodeAt_childOf_fresh:
  "map_of (Children node) (segments ! i) = None \<Longrightarrow>
   nodeAt (childOf segments i node) ks =
     (if ks = []
      then Some (Route [] (Some \<lparr>Path = filepath_Join (take i segments), Articles = []\<rparr>) [])
      else None)"
  by (simp add: childOf_def fresh_route nodeAt_leaf)

lemma pagesAt_childOf:
  "pagesAt node (segments ! i # ks) = pagesAt (childOf segments i node) ks"
  unfolding pagesAt_def
  by (cases "map_of (Children node) (segments ! i) = None")
     (simp_all add: nodeAt_childOf nodeAt_childOf_fresh del: nodeAt.simps)

lemma nodeAt_same_children:
  "nodeAt (Route ps lp (Children c)) ks =
     (if ks = [] then Some (Route ps lp (Children c)) else nodeAt c ks)"
  by (cases ks) simp_all

lemma registerLoop_pagesAt:
  "i < length segments \<Longrightarrow>
   pagesAt (registerLoop segments i page node) ks =
     (if ks = drop i segments then pagesAt node ks @ [page] else pagesAt node ks)"
proof (induction "length segments - i" arbitrary: i node ks)
  case 0
  then show ?case by simp
next
  case (Suc n)
  have dr: "drop i segments = segments ! i # drop (Suc i) segments"
    using Suc.prems by (simp add: Cons_nth_drop_Suc)
  show ?case
  proof (cases ks)
    case Nil
    then show ?thesis by (simp add: dr pagesAt_def registerLoop_Pages)
  next
    case (Cons k ks')
    show ?thesis
    proof (cases "k = segments ! i")
      case False
      then show ?thesis
        by (simp add: Cons dr pagesAt_def nodeAt_reg_other [OF Suc.prems] del: nodeAt.simps)
    next
      case True
      note old = pagesAt_childOf [of node segments i ks']
      show ?thesis
      proof (cases "length segments = Suc i")
        case last: True
        then have dn: "drop (Suc i) segments = []" by simp
        have "pagesAt (registerLoop segments i page node) ks =
                (if ks' = [] then pagesAt (childOf segments i node) ks' @ [page]
                 else pagesAt (childOf segments i node) ks')"
          unfolding Cons True pagesAt_def nodeAt_reg_last [OF last] nodeAt_same_children
          by simp
        then show ?thesis unfolding Cons True dr dn old by simp
      next
        case notlast: False
        then have lt: "Suc i < length segments" using Suc.prems by simp
        have n: "n = length segments - Suc i" using Suc.hyps(2) by simp
        have "pagesAt (registerLoop segments i page node) ks =
                pagesAt (registerLoop segments (Suc i) page (childOf segments i node)) ks'"
          unfolding Cons True pagesAt_def nodeAt_reg_inner [OF lt] by simp
        then show ?thesis unfolding Cons True dr old Suc.hyps(1) [OF n lt] by simp
      qed
    qed
  qed
qed

lemma listPageAt_childOf:
  "listPageAt (childOf segments i node) ks =
     (if nodeAt node (segments ! i # ks) = None \<and> ks = []
      then Some (Some \<lparr>Path = filepath_Join (take i segments), Articles = []\<rparr>)
      else listPageAt node (segments ! i # ks))"
proof (cases "map_of (Children node) (segments ! i)")
  case None
  then show ?thesis
    by (simp add: listPageAt_def childOf_def fresh_route nodeAt_leaf)
next
  case (Some c)
  then show ?thesis
    by (cases ks) (simp_all add: listPageAt_def childOf_def)
qed

lemma nodeAt_childOf_None:
  "nodeAt (childOf segments i node) ks = None \<longleftrightarrow>
     nodeAt node (segments ! i # ks) = None \<and> ks \<noteq> []"
proof (cases "map_of (Children node) (segments ! i)")
  case None
  then show ?thesis
    by (simp add: childOf_def fresh_route nodeAt_leaf)
next
  case (Some c)
  then show ?thesis
    by (cases ks) (simp_all add: childOf_def)
qed

lemma registerLoop_listPageAt:
  "i < length segments \<Longrightarrow>
   listPageAt (registerLoop segments i page node) ks =
     (if nodeAt node ks = None \<and> ks \<noteq> [] \<and> prefix ks (drop i segments)
      then Some (Some \<lparr>Path = filepath_Join (take (i + length ks - 1) segments),
                       Articles = []\<rparr>)
      else listPageAt node ks)"
proof (induction "length segments - i" arbitrary: i node ks)
  case 0
  then show ?case by simp
next
  case (Suc n)
  have dr: "drop i segments = segments ! i # drop (Suc i) segments"
    using Suc.prems by (simp add: Cons_nth_drop_Suc)
  show ?case
  proof (cases ks)
    case Nil
    then show ?thesis by (simp add: listPageAt_def registerLoop_ListPage)
  next
    case (Cons k ks')
    show ?thesis
    proof (cases "k = segments ! i")
      case False
      then show ?thesis
        by (simp add: Cons dr listPageAt_def nodeAt_reg_other [OF Suc.prems] del: nodeAt.simps)
    next
      case True
      show ?thesis
      proof (cases "length segments = Suc i")
        case last: True
        then have dn: "drop (Suc i) segments = []" by simp
        have "listPageAt (registerLoop segments i page node) ks =
                listPageAt (childOf segments i node) ks'"
          unfolding Cons True listPageAt_def nodeAt_reg_last [OF last] nodeAt_same_children
          by simp
        also have "\<dots> =
           (if nodeAt node ks = None \<and> ks \<noteq> [] \<and> prefix ks (drop i segments)
            then Some (Some \<lparr>Path = filepath_Join (take (i + length ks - 1) segments),
                             Articles = []\<rparr>)
            else listPageAt node ks)"
          unfolding listPageAt_childOf Cons True dr dn
          by (auto simp del: nodeAt.simps)
        finally show ?thesis .
      next
        case notlast: False
        then have lt: "Suc i < length segments" using Suc.prems by simp
        have n: "n = length segments - Suc i" using Suc.hyps(2) by simp
        have "listPageAt (registerLoop segments i page node) ks =
                listPageAt (registerLoop segments (Suc i) page (childOf segments i node)) ks'"
          unfolding Cons True listPageAt_def nodeAt_reg_inner [OF lt] by simp
        also have "\<dots> =
           (if nodeAt node ks = None \<and> ks \<noteq> [] \<and> prefix ks (drop i segments)
            then Some (Some \<lparr>Path = filepath_Join (take (i + length ks - 1) segments),
                             Articles = []\<rparr>)
            else listPageAt node ks)"
          unfolding Suc.hyps(1) [OF n lt] nodeAt_childOf_None listPageAt_childOf Cons True dr
          by (auto simp del: nodeAt.simps)
        finally show ?thesis .
      qed
    qed
  qed
qed

lemma listPageAt_None: "listPageAt node ks = None \<longleftrightarrow> nodeAt node ks = None"
  by (simp add: listPageAt_def)

lemma registerLoop_nodeAt_exists:
  assumes "i < length segments"
  shows "nodeAt (registerLoop segments i page node) ks \<noteq> None \<longleftrightarrow>
           nodeAt node ks \<noteq> None \<or> ks \<noteq> [] \<and> prefix ks (drop i segments)"
proof -
  have "nodeAt (registerLoop segments i page node) ks \<noteq> None \<longleftrightarrow>
          listPageAt (registerLoop segments i page node) ks \<noteq> None"
    by (simp add: listPageAt_None)
  also have "\<dots> \<longleftrightarrow> nodeAt node ks \<noteq> None \<or> ks \<noteq> [] \<and> prefix ks (drop i segments)"
    unfolding registerLoop_listPageAt [OF assms] by (auto simp: listPageAt_def)
  finally show ?thesis .
qed

lemma root_registerPage:
  "root (registerPage s page) = registerLoop (strings_Split (Path page) CHR ''/'') 0 page (root s)"
  by (simp add: registerPage_def)

lemma nodeAt_newSite: "nodeAt (root newSite) ks = None \<longleftrightarrow> ks \<noteq> []"
  by (simp add: newSite_def nodeAt_leaf)

lemma pagesAt_newSite: "pagesAt (root newSite) ks = []"
  by (cases ks) (simp_all add: newSite_def pagesAt_def)

lemma pages_newSite: "Route.Pages (root newSite) = []"
  by (simp add: newSite_def)

text \<open>
  Claim C5. For a page whose route path is a sequence of segments separated by slashes,
  \<^verbatim>\<open>registerPage\<close> creates or reuses the chain of child routes for the segments in order
  and appends the page to the route of the last segment only. For every list of keys
  \<open>ks\<close>: the pages found along \<open>ks\<close> are the old ones, with the new page appended exactly when
  \<open>ks\<close> is the list of segments; a route exists along \<open>ks\<close> afterwards exactly when it existed
  before or \<open>ks\<close> is a non-empty prefix of the segments; and a route that existed before is
  reused, keeping its list page.
\<close>

theorem registerPage_chain:
  "pagesAt (root (registerPage s page)) ks =
     (if ks = strings_Split (Path page) CHR ''/'' then pagesAt (root s) ks @ [page]
      else pagesAt (root s) ks)
   \<and> (nodeAt (root (registerPage s page)) ks \<noteq> None \<longleftrightarrow>
        nodeAt (root s) ks \<noteq> None \<or> ks \<noteq> [] \<and> prefix ks (strings_Split (Path page) CHR ''/''))
   \<and> (nodeAt (root s) ks \<noteq> None \<longrightarrow>
        listPageAt (root (registerPage s page)) ks = listPageAt (root s) ks)"
proof -
  let ?segments = "strings_Split (Path page) CHR ''/''"
  have pos: "0 < length ?segments"
    using strings_Split_nonempty [of "Path page" "CHR ''/''"] by simp
  have "pagesAt (root (registerPage s page)) ks =
          (if ks = ?segments then pagesAt (root s) ks @ [page] else pagesAt (root s) ks)"
    unfolding root_registerPage registerLoop_pagesAt [OF pos] by simp
  moreover have "nodeAt (root (registerPage s page)) ks \<noteq> None \<longleftrightarrow>
          nodeAt (root s) ks \<noteq> None \<or> ks \<noteq> [] \<and> prefix ks ?segments"
    unfolding root_registerPage registerLoop_nodeAt_exists [OF pos] by simp
  moreover have "nodeAt (root s) ks \<noteq> None \<longrightarrow>
          listPageAt (root (registerPage s page)) ks = listPageAt (root s) ks"
    unfolding root_registerPage registerLoop_listPageAt [OF pos] by simp
  ultimately show ?thesis by blast
qed

text \<open>
  The example of the claim: a page inserted at \<^verbatim>\<open>blog/coffee\<close> into an empty site is found
  under \<^verbatim>\<open>blog\<close>, \<^verbatim>\<open>coffee\<close> and not under \<^verbatim>\<open>blog\<close>; a second page inserted under the
  same path lands in the same route, which existed and keeps its list page.
\<close>

theorem registerPage_chain_witness:
  "pagesAt (root (registerPage newSite (exPage ''blog/coffee'' ''post-1'' 1 False [])))
     [''blog'', ''coffee''] = [exPage ''blog/coffee'' ''post-1'' 1 False []]
   \<and> pagesAt (root (registerPage newSite (exPage ''blog/coffee'' ''post-1'' 1 False [])))
       [''blog''] = []
   \<and> nodeAt (root (registerPage newSite (exPage ''blog/coffee'' ''post-1'' 1 False [])))
       [''blog'', ''coffee''] \<noteq> None
   \<and> pagesAt (root (registerPage (registerPage newSite (exPage ''blog/coffee'' ''post-1'' 1 False []))
                   (exPage ''blog/coffee'' ''post-2'' 2 False [])))
       [''blog'', ''coffee''] =
       [exPage ''blog/coffee'' ''post-1'' 1 False [], exPage ''blog/coffee'' ''post-2'' 2 False []]
   \<and> listPageAt (root (registerPage (registerPage newSite (exPage ''blog/coffee'' ''post-1'' 1 False []))
                      (exPage ''blog/coffee'' ''post-2'' 2 False [])))
       [''blog'', ''coffee''] =
     listPageAt (root (registerPage newSite (exPage ''blog/coffee'' ''post-1'' 1 False [])))
       [''blog'', ''coffee'']"
proof -
  let ?p1 = "exPage ''blog/coffee'' ''post-1'' 1 False []"
  let ?p2 = "exPage ''blog/coffee'' ''post-2'' 2 False []"
  let ?s1 = "registerPage newSite ?p1"
  have path1: "strings_Split (Path ?p1) CHR ''/'' = [''blog'', ''coffee'']"
    by (simp add: exPage_def)
  have path2: "strings_Split (Path ?p2) CHR ''/'' = [''blog'', ''coffee'']"
    by (simp add: exPage_def)
  have a: "pagesAt (root ?s1) [''blog'', ''coffee''] = [?p1]"
    using registerPage_chain [of newSite ?p1 "[''blog'', ''coffee'']"]
    by (simp add: path1 pagesAt_newSite)
  have b: "pagesAt (root ?s1) [''blog''] = []"
    using registerPage_chain [of newSite ?p1 "[''blog'']"]
    by (simp add: path1 pagesAt_newSite)
  have c: "nodeAt (root ?s1) [''blog'', ''coffee''] \<noteq> None"
    using registerPage_chain [of newSite ?p1 "[''blog'', ''coffee'']"]
    by (simp add: path1)
  have d: "pagesAt (root (registerPage ?s1 ?p2)) [''blog'', ''coffee''] = [?p1, ?p2]"
    using registerPage_chain [of ?s1 ?p2 "[''blog'', ''coffee'']"]
    by (simp add: path2 a)
  have e: "listPageAt (root (registerPage ?s1 ?p2)) [''blog'', ''coffee''] =
           listPageAt (root ?s1) [''blog'', ''coffee'']"
    using registerPage_chain [of ?s1 ?p2 "[''blog'', ''coffee'']"] c
    by blast
  from a b c d e show ?thesis by blast
qed

text \<open>
  Claim C9 fails on the code. The path stored in a created route's list page is
  \<^verbatim>\<open>filepath.Join(segments[:i]...)\<close>, which leaves the route's own segment out: the
  stored path is that of the parent. After inserting a page at \<^verbatim>\<open>blog/coffee\<close>, the route
  \<^verbatim>\<open>blog/coffee\<close> stores \<^verbatim>\<open>blog\<close> and the route \<^verbatim>\<open>blog\<close> stores the empty path.
\<close>

theorem registerPage_stores_parent_path:
  "listPageAt (root (registerPage newSite (exPage ''blog/coffee'' ''post-1'' 1 False [])))
     [''blog'', ''coffee''] = Some (Some \<lparr>Path = ''blog'', Articles = []\<rparr>)
   \<and> listPageAt (root (registerPage newSite (exPage ''blog/coffee'' ''post-1'' 1 False [])))
       [''blog''] = Some (Some \<lparr>Path = [], Articles = []\<rparr>)"
proof -
  let ?p1 = "exPage ''blog/coffee'' ''post-1'' 1 False []"
  have path1: "strings_Split (Path ?p1) CHR ''/'' = [''blog'', ''coffee'']"
    by (simp add: exPage_def)
  have j0: "filepath_Join [] = []"
    by (simp add: filepath_Join_def)
  have j1: "filepath_Join [''blog''] = ''blog''"
    by code_simp
  have "listPageAt (root (registerPage newSite ?p1)) [''blog'', ''coffee''] =
          Some (Some \<lparr>Path = ''blog'', Articles = []\<rparr>)"
    unfolding root_registerPage path1
    by (simp add: registerLoop_listPageAt nodeAt_newSite j1 del: nodeAt.simps)
  moreover have "listPageAt (root (registerPage newSite ?p1)) [''blog''] =
          Some (Some \<lparr>Path = [], Articles = []\<rparr>)"
    unfolding root_registerPage path1
    by (simp add: registerLoop_listPageAt nodeAt_newSite j0 del: nodeAt.simps)
  ultimately show ?thesis by blast
qed

text \<open>
  Claim C4 fails on the code: \<^verbatim>\<open>strings.Split\<close> of the empty path is the one-element
  list holding the empty segment, so the loop runs once. Registering a page with the empty
  path in a new site leaves the root's page list empty and creates a child.
\<close>

theorem registerPage_empty_path_counterexample:
  "Route.Pages (root (registerPage newSite (exPage [] ''about'' 1 False []))) = []
   \<and> Children (root (registerPage newSite (exPage [] ''about'' 1 False []))) =
       [([], Route [exPage [] ''about'' 1 False []] (Some \<lparr>Path = [], Articles = []\<rparr>) [])]"
  by (simp add: registerPage_def newSite_def exPage_def registerLoop_last childOf_def
        fresh_route filepath_Join_def)

text \<open>
  Claim C4 as amended. Registering a page whose route path is the empty string creates or
  reuses the child of the root under the empty key and appends the page to that child's
  page list; the root's own page list and the pages of every other route stay as they
  were.
\<close>

theorem registerPage_empty_path:
  assumes "Path page = []"
  shows "Route.Pages (root (registerPage s page)) = Route.Pages (root s)
   \<and> nodeAt (root (registerPage s page)) [[]] \<noteq> None
   \<and> pagesAt (root (registerPage s page)) [[]] = pagesAt (root s) [[]] @ [page]
   \<and> (ks \<noteq> [[]] \<longrightarrow> pagesAt (root (registerPage s page)) ks = pagesAt (root s) ks)"
proof -
  have segs: "strings_Split (Path page) CHR ''/'' = [[]]"
    using assms by simp
  have "Route.Pages (root (registerPage s page)) = Route.Pages (root s)"
    by (simp add: root_registerPage registerLoop_Pages)
  moreover have "nodeAt (root (registerPage s page)) [[]] \<noteq> None"
    unfolding root_registerPage segs
    using registerLoop_nodeAt_exists [of 0 "[[]]" page "root s" "[[]]"] by simp
  moreover have "pagesAt (root (registerPage s page)) ks =
      (if ks = [[]] then pagesAt (root s) ks @ [page] else pagesAt (root s) ks)" for ks
    unfolding root_registerPage segs by (simp add: registerLoop_pagesAt)
  ultimately show ?thesis by simp
qed

theorem registerPage_empty_path_witness:
  "Path (exPage [] ''about'' 1 False []) = []
   \<and> Route.Pages (root (registerPage newSite (exPage [] ''about'' 1 False []))) = []
   \<and> nodeAt (root (registerPage newSite (exPage [] ''about'' 1 False []))) [[]] \<noteq> None
   \<and> pagesAt (root (registerPage newSite (exPage [] ''about'' 1 False []))) [[]] =
       [exPage [] ''about'' 1 False []]
   \<and> pagesAt (root (registerPage newSite (exPage [] ''about'' 1 False []))) [''blog''] = []"
proof -
  have p: "Path (exPage [] ''about'' 1 False []) = []"
    by (simp add: exPage_def)
  have ne: "[''blog''] \<noteq> [[]]"
    by simp
  show ?thesis
    using registerPage_empty_path [OF p, of newSite "[''blog'']"] p ne
    by (simp add: pagesAt_newSite pages_newSite)
qed

section \<open>Properties of the walker\<close>

lemma wfRoute_iff:
  "wfRoute route \<longleftrightarrow>
     distinct (map fst (Children route)) \<and> (\<forall>child \<in> set (Children route). wfRoute (snd child))"
  by (subst wfRoute.simps) (simp add: list_all_iff)

lemma wfRoute_child:
  "wfRoute route \<Longrightarrow> child \<in> set (Children route) \<Longrightarrow>
   wfRoute (snd child) \<and> map_of (Children route) (fst child) = Some (snd child)"
  by (subst (asm) wfRoute_iff) (simp add: map_of_is_SomeI)

lemma walkRoute_stop:
  "depth \<noteq> - 1 \<Longrightarrow> walkRoute route walkFn depth depth st = st"
  by (simp add: walkRoute.simps [of route walkFn depth depth st])

lemma walkRoute_step:
  "\<not> (depth \<noteq> - 1 \<and> currentDepth = depth) \<Longrightarrow>
   walkRoute route walkFn depth currentDepth st =
     fold (\<lambda>child st'. walkRoute (snd child) walkFn depth (currentDepth + 1)
                         (walkFn (snd child) st'))
       (Children route) st"
  unfolding walkRoute.simps [of route walkFn depth currentDepth st] by auto

lemma visitPaths_stop:
  "depth \<noteq> - 1 \<Longrightarrow> visitPaths route depth depth = []"
  by (simp add: visitPaths.simps [of route depth depth])

lemma visitPaths_step:
  "\<not> (depth \<noteq> - 1 \<and> currentDepth = depth) \<Longrightarrow>
   visitPaths route depth currentDepth =
     concat (map (\<lambda>child. [fst child] #
                    map ((#) (fst child)) (visitPaths (snd child) depth (currentDepth + 1)))
               (Children route))"
  unfolding visitPaths.simps [of route depth currentDepth] by auto

lemma visitPaths_not_Nil: "[] \<notin> set (visitPaths route depth currentDepth)"
  by (cases "depth \<noteq> - 1 \<and> currentDepth = depth")
     (auto simp: visitPaths_stop visitPaths_step)

lemma visitPaths_hd:
  "\<not> (depth \<noteq> - 1 \<and> currentDepth = depth) \<Longrightarrow>
   p \<in> set (visitPaths route depth currentDepth) \<longleftrightarrow>
     (\<exists>child \<in> set (Children route).
        p = [fst child] \<or>
        (\<exists>q \<in> set (visitPaths (snd child) depth (currentDepth + 1)). p = fst child # q))"
  by (auto simp: visitPaths_step)

text \<open>The walk calls the callback on the routes at the visited paths, in order.\<close>

lemma fold_children_trace:
  assumes wf: "wfRoute route"
    and IH: "\<And>child st'. child \<in> set (Children route) \<Longrightarrow>
               walkRoute (snd child) walkFn depth cd' (walkFn (snd child) st') =
               fold walkFn (map (\<lambda>p. the (nodeAt (snd child) p)) (visitPaths (snd child) depth cd'))
                 (walkFn (snd child) st')"
    and sub: "set cs \<subseteq> set (Children route)"
  shows "fold (\<lambda>child st'. walkRoute (snd child) walkFn depth cd' (walkFn (snd child) st')) cs st =
         fold walkFn
           (map (\<lambda>p. the (nodeAt route p))
              (concat (map (\<lambda>child. [fst child] #
                              map ((#) (fst child)) (visitPaths (snd child) depth cd')) cs)))
           st"
  using sub
proof (induction cs arbitrary: st)
  case Nil
  show ?case by simp
next
  case (Cons child cs)
  have mem: "child \<in> set (Children route)" using Cons.prems by simp
  have look: "map_of (Children route) (fst child) = Some (snd child)"
    using wfRoute_child [OF wf mem] by simp
  have here: "the (nodeAt route [fst child]) = snd child"
    by (simp add: look)
  have below: "(\<lambda>p. the (nodeAt route p)) \<circ> (#) (fst child) = (\<lambda>p. the (nodeAt (snd child) p))"
    by (rule ext) (simp add: look)
  have rest: "set cs \<subseteq> set (Children route)" using Cons.prems by simp
  show ?case
    by (simp add: here below IH [OF mem] Cons.IH [OF rest] del: nodeAt.simps)
qed

lemma walkRoute_trace:
  "wfRoute route \<Longrightarrow>
   walkRoute route walkFn depth currentDepth st =
     fold walkFn (map (\<lambda>p. the (nodeAt route p)) (visitPaths route depth currentDepth)) st"
proof (induction route walkFn depth currentDepth st rule: walkRoute.induct)
  case (1 route walkFn depth currentDepth st)
  show ?case
  proof (cases "depth \<noteq> - 1 \<and> currentDepth = depth")
    case True
    then show ?thesis by (simp add: walkRoute_stop visitPaths_stop)
  next
    case False
    have IH: "walkRoute (snd child) walkFn depth (currentDepth + 1) (walkFn (snd child) st') =
               fold walkFn (map (\<lambda>p. the (nodeAt (snd child) p))
                              (visitPaths (snd child) depth (currentDepth + 1)))
                 (walkFn (snd child) st')"
      if "child \<in> set (Children route)" for child st'
    proof -
      have wfc: "wfRoute (snd child)"
        using wfRoute_child [OF "1.prems" that] by simp
      show ?thesis
        by (rule "1.IH" [OF False that wfc])
    qed
    show ?thesis
      unfolding walkRoute_step [OF False] visitPaths_step [OF False]
      by (rule fold_children_trace [OF "1.prems" IH subset_refl])
  qed
qed


text \<open>No path is visited twice.\<close>

lemma distinct_concat_keys:
  "distinct (map fst cs) \<Longrightarrow>
   (\<And>c. c \<in> set cs \<Longrightarrow> distinct (h c)) \<Longrightarrow>
   (\<And>c p. c \<in> set cs \<Longrightarrow> p \<in> set (h c) \<Longrightarrow> p \<noteq> [] \<and> hd p = fst c) \<Longrightarrow>
   distinct (concat (map h cs))"
proof (induction cs)
  case Nil
  show ?case by simp
next
  case (Cons c cs)
  have "set (h c) \<inter> set (h c') = {}" if "c' \<in> set cs" for c'
  proof -
    have "fst c \<noteq> fst c'" using Cons.prems(1) that by auto
    then show ?thesis using Cons.prems(3) [of c] Cons.prems(3) [of c'] that by fastforce
  qed
  then have disj: "set (h c) \<inter> set (concat (map h cs)) = {}"
    by auto
  have "distinct (concat (map h cs))"
  proof (rule Cons.IH)
    show "distinct (map fst cs)" using Cons.prems(1) by simp
    show "distinct (h c')" if "c' \<in> set cs" for c'
      using Cons.prems(2) [of c'] that by simp
    show "p \<noteq> [] \<and> hd p = fst c'" if "c' \<in> set cs" "p \<in> set (h c')" for c' p
      using Cons.prems(3) [of c' p] that by simp
  qed
  moreover have "distinct (h c)"
    using Cons.prems(2) by simp
  ultimately show ?case using disj by simp
qed

lemma visitPaths_distinct:
  "wfRoute route \<Longrightarrow> distinct (visitPaths route depth currentDepth)"
proof (induction route depth currentDepth rule: visitPaths.induct)
  case (1 route depth currentDepth)
  show ?case
  proof (cases "depth \<noteq> - 1 \<and> currentDepth = depth")
    case True
    then show ?thesis by (simp add: visitPaths_stop)
  next
    case False
    have keys: "distinct (map fst (Children route))"
      using "1.prems" by (subst (asm) wfRoute_iff) simp
    have each: "distinct ([fst child] #
                  map ((#) (fst child)) (visitPaths (snd child) depth (currentDepth + 1)))"
      if "child \<in> set (Children route)" for child
    proof -
      have "distinct (visitPaths (snd child) depth (currentDepth + 1))"
        using "1.IH" [OF False that] wfRoute_child [OF "1.prems" that] by simp
      then show ?thesis
        using visitPaths_not_Nil [of "snd child" depth "currentDepth + 1"]
        by (auto simp: distinct_map)
    qed
    show ?thesis
      unfolding visitPaths_step [OF False]
      by (rule distinct_concat_keys [OF keys each]) auto
  qed
qed

text \<open>The visited paths are those of the routes below the start, down to the depth.\<close>

lemma nodeAt_Cons_wf:
  "wfRoute route \<Longrightarrow>
   nodeAt route (k # q) \<noteq> None \<longleftrightarrow>
     (\<exists>child \<in> set (Children route). fst child = k \<and> nodeAt (snd child) q \<noteq> None)"
proof
  assume wf: "wfRoute route" and "nodeAt route (k # q) \<noteq> None"
  then obtain c where c: "map_of (Children route) k = Some c" and q: "nodeAt c q \<noteq> None"
    by (auto split: option.splits)
  from c have "(k, c) \<in> set (Children route)" by (rule map_of_SomeD)
  with q show "\<exists>child \<in> set (Children route). fst child = k \<and> nodeAt (snd child) q \<noteq> None"
    by force
next
  assume wf: "wfRoute route"
    and "\<exists>child \<in> set (Children route). fst child = k \<and> nodeAt (snd child) q \<noteq> None"
  then obtain child where mem: "child \<in> set (Children route)" and k: "fst child = k"
    and q: "nodeAt (snd child) q \<noteq> None" by blast
  from wfRoute_child [OF wf mem] k have "map_of (Children route) k = Some (snd child)" by simp
  with q show "nodeAt route (k # q) \<noteq> None" by simp
qed

lemma visitPaths_set:
  "wfRoute route \<Longrightarrow> depth = - 1 \<or> currentDepth \<le> depth \<Longrightarrow>
   p \<in> set (visitPaths route depth currentDepth) \<longleftrightarrow>
     p \<noteq> [] \<and> nodeAt route p \<noteq> None \<and> (depth = - 1 \<or> currentDepth + int (length p) \<le> depth)"
proof (induction route depth currentDepth arbitrary: p rule: visitPaths.induct)
  case (1 route depth currentDepth)
  show ?case
  proof (cases "depth \<noteq> - 1 \<and> currentDepth = depth")
    case True
    then show ?thesis by (cases p) (simp_all add: visitPaths_stop)
  next
    case False
    have bound: "depth = - 1 \<or> currentDepth + 1 \<le> depth"
      using False "1.prems"(2) by auto
    have IH: "q \<in> set (visitPaths (snd child) depth (currentDepth + 1)) \<longleftrightarrow>
                q \<noteq> [] \<and> nodeAt (snd child) q \<noteq> None \<and>
                (depth = - 1 \<or> currentDepth + 1 + int (length q) \<le> depth)"
      if "child \<in> set (Children route)" for child q
      using "1.IH" [OF False that _ bound, of q] wfRoute_child [OF "1.prems"(1) that] by simp
    show ?thesis
    proof (cases p)
      case Nil
      then show ?thesis using visitPaths_not_Nil [of route depth currentDepth] by simp
    next
      case (Cons k q)
      have "p \<in> set (visitPaths route depth currentDepth) \<longleftrightarrow>
              (\<exists>child \<in> set (Children route). fst child = k \<and>
                 (q = [] \<or> q \<in> set (visitPaths (snd child) depth (currentDepth + 1))))"
        unfolding visitPaths_hd [OF False] Cons by auto
      also have "\<dots> \<longleftrightarrow>
              (\<exists>child \<in> set (Children route). fst child = k \<and> nodeAt (snd child) q \<noteq> None) \<and>
              (depth = - 1 \<or> currentDepth + int (length p) \<le> depth)"
        using IH bound Cons by (cases "q = []") auto
      also have "\<dots> \<longleftrightarrow> p \<noteq> [] \<and> nodeAt route p \<noteq> None \<and>
              (depth = - 1 \<or> currentDepth + int (length p) \<le> depth)"
        unfolding Cons nodeAt_Cons_wf [OF "1.prems"(1)] by simp
      finally show ?thesis .
    qed
  qed
qed

lemma walkRoute_depth_one:
  "walkRoute route walkFn 1 0 st = fold walkFn (map snd (Children route)) st"
proof -
  have "walkRoute route walkFn 1 0 st =
          fold (\<lambda>child st'. walkRoute (snd child) walkFn 1 1 (walkFn (snd child) st'))
            (Children route) st"
    using walkRoute_step [of 1 0 route walkFn st] by simp
  also have "\<dots> = fold (\<lambda>child st'. walkFn (snd child) st') (Children route) st"
    by (simp add: walkRoute_stop)
  also have "\<dots> = fold walkFn (map snd (Children route)) st"
    by (simp add: fold_map comp_def)
  finally show ?thesis .
qed

lemma wfRoute_Route:
  "wfRoute (Route ps lp cs) \<longleftrightarrow>
     distinct (map fst cs) \<and> (\<forall>child \<in> set cs. wfRoute (snd child))"
  by (subst wfRoute_iff) simp

lemma visitPaths_Route:
  "visitPaths (Route ps lp cs) depth currentDepth =
     (if depth \<noteq> - 1 \<and> currentDepth = depth then []
      else concat (map (\<lambda>child. [fst child] #
                          map ((#) (fst child)) (visitPaths (snd child) depth (currentDepth + 1)))
                     cs))"
  by (subst visitPaths.simps) simp

text \<open>
  The trees that \<^verbatim>\<open>registerPage\<close> builds are well-formed: it looks a key up before it
  adds it.
\<close>

lemma update_children_wf:
  "(\<forall>child \<in> set cs. wfRoute (snd child)) \<Longrightarrow> wfRoute c \<Longrightarrow>
   (\<forall>child \<in> set (AList.update k c cs). wfRoute (snd child))"
  by (induction cs) auto

lemma wfRoute_update:
  assumes "wfRoute node" and "wfRoute c"
  shows "wfRoute (Route ps lp (AList.update k c (Children node)))"
proof -
  have "distinct (map fst (Children node))" and "\<forall>child \<in> set (Children node). wfRoute (snd child)"
    using assms(1) by (subst (asm) wfRoute_iff, simp)+
  then show ?thesis
    using update_children_wf [of "Children node" c k] assms(2)
    by (simp add: wfRoute_Route distinct_update)
qed

lemma wfRoute_childOf: "wfRoute node \<Longrightarrow> wfRoute (childOf segments i node)"
proof (cases "map_of (Children node) (segments ! i)")
  case None
  then show ?thesis by (simp add: childOf_def fresh_route wfRoute_Route)
next
  case (Some c)
  assume wf: "wfRoute node"
  from Some have "(segments ! i, c) \<in> set (Children node)" by (rule map_of_SomeD)
  then have "wfRoute c" using wfRoute_child [OF wf] by force
  then show ?thesis using Some by (simp add: childOf_def)
qed

lemma wfRoute_same_children: "wfRoute c \<Longrightarrow> wfRoute (Route ps lp (Children c))"
  by (subst (asm) wfRoute_iff) (simp add: wfRoute_Route)

lemma wfRoute_registerLoop:
  "wfRoute node \<Longrightarrow> wfRoute (registerLoop segments i page node)"
proof (induction "length segments - i" arbitrary: i node)
  case 0
  then show ?case by (simp add: registerLoop.simps [of segments i page node])
next
  case (Suc n)
  then have i: "i < length segments" by simp
  note child = wfRoute_childOf [OF Suc.prems, of segments i]
  show ?case
  proof (cases "length segments = Suc i")
    case True
    show ?thesis
      unfolding registerLoop_last [OF True]
      by (rule wfRoute_update [OF Suc.prems wfRoute_same_children [OF child]])
  next
    case False
    then have lt: "Suc i < length segments" using i by simp
    have n: "n = length segments - Suc i" using Suc.hyps(2) by simp
    show ?thesis
      unfolding registerLoop_inner [OF lt]
      by (rule wfRoute_update [OF Suc.prems Suc.hyps(1) [OF n child]])
  qed
qed

lemma wfRoute_newSite: "wfRoute (root newSite)"
  by (simp add: newSite_def wfRoute_Route)

lemma wfRoute_registerPage: "wfRoute (root s) \<Longrightarrow> wfRoute (root (registerPage s page))"
  by (simp add: root_registerPage wfRoute_registerLoop)

text \<open>
  Claim C6. \<^verbatim>\<open>WalkRoutes\<close> invokes the callback exactly once per route below the root,
  stopping the descent once \<open>depth\<close> levels have been traversed, with \<open>depth = -1\<close> meaning
  unbounded. The callback is invoked, in order, on the routes at the paths
  \<open>visitPaths (root s) depth 0\<close>; no path occurs twice in that list; a path is in it exactly
  when it is not empty, leads to a route, and has at most \<open>depth\<close> keys unless the depth is
  \<open>-1\<close>. With depth 1 the callback is invoked on the children of the root and on nothing
  else. The walker gives back the state of the callback and no tree: it has no way to
  change a route.
\<close>

theorem WalkRoutes_visits_each_route_once:
  assumes "wfRoute (root s)" and "depth = - 1 \<or> 0 \<le> depth"
  shows "WalkRoutes s walkFn depth st =
           fold walkFn (map (\<lambda>p. the (nodeAt (root s) p)) (visitPaths (root s) depth 0)) st
   \<and> distinct (visitPaths (root s) depth 0)
   \<and> set (visitPaths (root s) depth 0) =
       {p. p \<noteq> [] \<and> nodeAt (root s) p \<noteq> None \<and> (depth = - 1 \<or> int (length p) \<le> depth)}
   \<and> WalkRoutes s walkFn 1 st = fold walkFn (map snd (Children (root s))) st"
proof -
  have "WalkRoutes s walkFn depth st =
          fold walkFn (map (\<lambda>p. the (nodeAt (root s) p)) (visitPaths (root s) depth 0)) st"
    unfolding WalkRoutes_def by (rule walkRoute_trace [OF assms(1)])
  moreover have "distinct (visitPaths (root s) depth 0)"
    by (rule visitPaths_distinct [OF assms(1)])
  moreover have "set (visitPaths (root s) depth 0) =
       {p. p \<noteq> [] \<and> nodeAt (root s) p \<noteq> None \<and> (depth = - 1 \<or> int (length p) \<le> depth)}"
    using visitPaths_set [OF assms(1), of depth 0] assms(2) by auto
  moreover have "WalkRoutes s walkFn 1 st = fold walkFn (map snd (Children (root s))) st"
    unfolding WalkRoutes_def by (rule walkRoute_depth_one)
  ultimately show ?thesis by blast
qed

text \<open>
  On the example site a walk of depth 1 sees \<^verbatim>\<open>blog\<close> and \<^verbatim>\<open>about\<close> and not
  \<^verbatim>\<open>blog/coffee\<close>, and a walk of depth \<open>-1\<close> sees all three; here the callback collects
  the page lists of the routes it is given.
\<close>

theorem WalkRoutes_visits_each_route_once_witness:
  "wfRoute (root exSite) \<and> ((1::int) = - 1 \<or> (0::int) \<le> 1)
   \<and> visitPaths (root exSite) 1 0 = [[''blog''], [''about'']]
   \<and> WalkRoutes exSite (\<lambda>r acc. acc @ [Route.Pages r]) 1 [] =
       [[], [exPage ''about'' ''me'' 2 False []]]
   \<and> visitPaths (root exSite) (- 1) 0 = [[''blog''], [''blog'', ''coffee''], [''about'']]
   \<and> WalkRoutes exSite (\<lambda>r acc. acc @ [Route.Pages r]) (- 1) [] =
       [[], [exPage ''blog/coffee'' ''post-1'' 1 False []], [exPage ''about'' ''me'' 2 False []]]"
proof -
  have wf: "wfRoute (root exSite)"
    by (simp add: exSite_def wfRoute_Route)
  have d: "(1::int) = - 1 \<or> (0::int) \<le> 1"
    by simp
  have u: "(- 1::int) = - 1 \<or> (0::int) \<le> - 1"
    by simp
  have vp: "visitPaths (root exSite) 1 0 = [[''blog''], [''about'']]"
    by (simp add: exSite_def visitPaths_Route)
  have vq: "visitPaths (root exSite) (- 1) 0 = [[''blog''], [''blog'', ''coffee''], [''about'']]"
    by (simp add: exSite_def visitPaths_Route)
  have "WalkRoutes exSite (\<lambda>r acc. acc @ [Route.Pages r]) 1 [] =
          fold (\<lambda>r acc. acc @ [Route.Pages r])
            (map (\<lambda>p. the (nodeAt (root exSite) p)) (visitPaths (root exSite) 1 0)) []"
    using WalkRoutes_visits_each_route_once [OF wf d, of "\<lambda>r acc. acc @ [Route.Pages r]" "[]"]
    by blast
  also have "\<dots> = [[], [exPage ''about'' ''me'' 2 False []]]"
    unfolding vp by (simp add: exSite_def)
  finally have one: "WalkRoutes exSite (\<lambda>r acc. acc @ [Route.Pages r]) 1 [] =
      [[], [exPage ''about'' ''me'' 2 False []]]" .
  have "WalkRoutes exSite (\<lambda>r acc. acc @ [Route.Pages r]) (- 1) [] =
          fold (\<lambda>r acc. acc @ [Route.Pages r])
            (map (\<lambda>p. the (nodeAt (root exSite) p)) (visitPaths (root exSite) (- 1) 0)) []"
    using WalkRoutes_visits_each_route_once [OF wf u, of "\<lambda>r acc. acc @ [Route.Pages r]" "[]"]
    by blast
  also have "\<dots> = [[], [exPage ''blog/coffee'' ''post-1'' 1 False []],
                     [exPage ''about'' ''me'' 2 False []]]"
    unfolding vq by (simp add: exSite_def)
  finally show ?thesis using wf d vp vq one by blast
qed

section \<open>Properties of the builder\<close>

subsection \<open>The walker of the passes\<close>

lemma walkInfos_local:
  assumes "\<And>model r i st. walkFn model r i st = Inr (g r i, st)"
  shows "walkInfos walkFn visited rest st = Inr (visited @ map (\<lambda>(r, i). (r, g r i)) rest, st)"
proof (induction rest arbitrary: visited)
  case Nil
  show ?case by simp
next
  case (Cons route rest)
  obtain r i where route: "route = (r, i)" by (cases route)
  show ?case unfolding route
    using Cons.IH [of "visited @ [(r, g r i)]"] by (simp add: assms)
qed

subsection \<open>Insertion sort\<close>

lemma mset_insertionSwaps: "mset (insertionSwaps lessFn x front) = add_mset x (mset front)"
  by (induction front) simp_all

lemma set_insertionSwaps: "set (insertionSwaps lessFn x front) = insert x (set front)"
  using mset_insertionSwaps [of lessFn x front] by (metis set_mset_add_mset_insert set_mset_mset)

lemma mset_insertion_foldl:
  "mset (foldl (\<lambda>front x. insertionSwaps lessFn x front) acc data) = mset acc + mset data"
  by (induction data arbitrary: acc) (simp_all add: mset_insertionSwaps)

lemma mset_insertionSort: "mset (insertionSort lessFn data) = mset data"
  by (simp add: insertionSort_def mset_insertion_foldl)

text \<open>The front part, held in reverse, is in ascending date order.\<close>

lemma sorted_insertionSwaps:
  "sorted_wrt (\<lambda>a b. \<not> dateAfter a b) front \<Longrightarrow>
   sorted_wrt (\<lambda>a b. \<not> dateAfter a b) (insertionSwaps dateAfter x front)"
proof (induction front)
  case Nil
  show ?case by simp
next
  case (Cons y front)
  show ?case
  proof (cases "dateAfter x y")
    case True
    then show ?thesis using Cons by (auto simp: set_insertionSwaps dateAfter_def)
  next
    case False
    then show ?thesis using Cons by (auto simp: dateAfter_def)
  qed
qed

lemma sorted_insertion_foldl:
  "sorted_wrt (\<lambda>a b. \<not> dateAfter a b) acc \<Longrightarrow>
   sorted_wrt (\<lambda>a b. \<not> dateAfter a b)
     (foldl (\<lambda>front x. insertionSwaps dateAfter x front) acc data)"
  by (induction data arbitrary: acc) (simp_all add: sorted_insertionSwaps)

lemma sorted_insertionSort:
  "sorted_wrt (\<lambda>a b. \<not> dateAfter b a) (insertionSort dateAfter data)"
  using sorted_insertion_foldl [of "[]" data]
  by (simp add: insertionSort_def sorted_wrt_rev)

lemma sortsByDate_insertionSort: "sortsByDate insertionSort"
  by (simp add: sortsByDate_def mset_insertionSort sorted_insertionSort)

lemma sortsByDate_tieReversingSort: "sortsByDate tieReversingSort"
  by (simp add: sortsByDate_def tieReversingSort_def mset_insertionSort sorted_insertionSort)

subsection \<open>The list page pass\<close>

lemma fillArticlePages_slots:
  "length articlePages = n + length pages \<Longrightarrow>
   (\<And>k. n \<le> k \<Longrightarrow> k < length articlePages \<Longrightarrow> articlePages ! k = None) \<Longrightarrow>
   fillArticlePages n pages articlePages = Inr (take n articlePages @ map slot pages)"
proof (induction pages arbitrary: n articlePages)
  case Nil
  then show ?case by simp
next
  case (Cons page pages)
  have n: "n < length articlePages" using Cons.prems(1) by simp
  show ?case
  proof (cases "Hide (ArticlePage.Article page)")
    case True
    have "fillArticlePages (n + 1) pages articlePages =
            Inr (take (n + 1) articlePages @ map slot pages)"
      by (rule Cons.IH) (use Cons.prems in auto)
    moreover have "take (n + 1) articlePages = take n articlePages @ [None]"
      using Cons.prems(2) [of n] n by (simp add: take_Suc_conv_app_nth)
    ultimately show ?thesis using True by (simp add: slot_def)
  next
    case False
    have "fillArticlePages (n + 1) pages (articlePages[n := Some page]) =
            Inr (take (n + 1) (articlePages[n := Some page]) @ map slot pages)"
      by (rule Cons.IH) (use Cons.prems in auto)
    moreover have "take (n + 1) (articlePages[n := Some page]) = take n articlePages @ [Some page]"
      using n by (simp add: take_Suc_conv_app_nth)
    ultimately show ?thesis using False n by (simp add: slot_def)
  qed
qed

lemma fillArticlePages_fresh:
  "length pages' = length pages \<Longrightarrow>
   fillArticlePages 0 pages' (replicate (length pages) None) = Inr (map slot pages')"
  using fillArticlePages_slots [of "replicate (length pages) None" 0 pages'] by simp

lemma listPageFn_eq:
  assumes "sortPages \<Longrightarrow> length (sortSlice dateAfter (Pages i)) = length (Pages i)"
  shows "listPageFn sortSlice sortPages model r i st =
           Inr (listPageOf sortSlice sortPages r i, st)"
  using assms
  by (cases sortPages) (simp_all add: listPageFn_def listPageOf_def Let_def fillArticlePages_fresh)

lemma buildListPages_eq:
  assumes "sortPages \<Longrightarrow> (\<forall>pages. length (sortSlice dateAfter pages) = length pages)"
  shows "buildListPages sortSlice sortPages model =
           Inr (map (\<lambda>(r, i). (r, listPageOf sortSlice sortPages r i)) model)"
proof -
  have "listPageFn sortSlice sortPages m r i st = Inr (listPageOf sortSlice sortPages r i, st)"
    for m r i st
    by (rule listPageFn_eq) (use assms in simp)
  then show ?thesis
    by (simp add: buildListPages_def WalkRoutesInfo_def walkInfos_local)
qed

lemma sortsByDate_length:
  "sortsByDate sortSlice \<Longrightarrow> length (sortSlice dateAfter pages) = length pages"
  by (metis sortsByDate_def size_mset)

lemma map_filter_slot: "List.map_filter id (map slot pages) = filter visible pages"
  by (induction pages) (simp_all add: List.map_filter_simps slot_def visible_def)

text \<open>
  Nothing in the pass keeps pages of equal date in their order: under a sort that keeps the
  promise of \<^verbatim>\<open>sort.Slice\<close> two pages of the same date may change places.
\<close>

lemma buildListPages_ties_may_swap:
  "map (\<lambda>(r, i). Pages i)
     (projr (buildListPages tieReversingSort True
        [(''blog'', exRoute [exPage ''blog'' ''first'' 5 False [],
                             exPage ''blog'' ''second'' 5 False []])])) =
   [[exPage ''blog'' ''second'' 5 False [], exPage ''blog'' ''first'' 5 False []]]"
proof -
  have len: "\<forall>pages. length (tieReversingSort dateAfter pages) = length pages"
    by (simp add: sortsByDate_length [OF sortsByDate_tieReversingSort])
  show ?thesis
    unfolding buildListPages_eq [of True tieReversingSort, OF len]
    by (simp add: listPageOf_def exRoute_def tieReversingSort_def insertionSort_def dateAfter_def
          exPage_def exArticle_def)
qed

text \<open>
  Claim C1 fails on the code. The slice of the list page is made with the length of the
  route's page list and the loop stores each visible page at its own index, so the index
  of a hidden page keeps a nil entry. For a route with a hidden article of 2023-01-01 and
  a visible one of 2023-03-01, in either order of registration, the list page has two
  entries, the visible page and nil, where the claim has the single visible entry.
\<close>

theorem buildListPages_keeps_nil_entry:
  "buildListPages insertionSort True
     [(''blog'', exRoute [exPage ''blog'' ''winter'' 20230101 True [],
                          exPage ''blog'' ''spring'' 20230301 False []])] =
   Inr [(''blog'',
         \<lparr>Pages = [exPage ''blog'' ''spring'' 20230301 False [],
                   exPage ''blog'' ''winter'' 20230101 True []],
          IndexPage = None,
          ListPage = Some \<lparr>Path = ''blog'', ListPage.ArticlePages =
            [Some (exPage ''blog'' ''spring'' 20230301 False []), None]\<rparr>\<rparr>)]
   \<and> buildListPages insertionSort True
     [(''blog'', exRoute [exPage ''blog'' ''spring'' 20230301 False [],
                          exPage ''blog'' ''winter'' 20230101 True []])] =
   Inr [(''blog'',
         \<lparr>Pages = [exPage ''blog'' ''spring'' 20230301 False [],
                   exPage ''blog'' ''winter'' 20230101 True []],
          IndexPage = None,
          ListPage = Some \<lparr>Path = ''blog'', ListPage.ArticlePages =
            [Some (exPage ''blog'' ''spring'' 20230301 False []), None]\<rparr>\<rparr>)]"
proof -
  have len: "\<forall>pages. length (insertionSort dateAfter pages) = length pages"
    by (simp add: sortsByDate_length [OF sortsByDate_insertionSort])
  show ?thesis
    unfolding buildListPages_eq [of True insertionSort, OF len]
    by (simp add: listPageOf_def exRoute_def insertionSort_def dateAfter_def exPage_def
          exArticle_def slot_def)
qed

text \<open>
  Claim C8 fails on the code: \<^verbatim>\<open>sort.Slice\<close> is applied to \<^verbatim>\<open>i.Pages\<close> itself, before
  anything is copied. For a route whose pages were registered in the order January, March
  the pass leaves the route's own page list in the order March, January.
\<close>

theorem buildListPages_sorts_in_place_counterexample:
  "buildListPages insertionSort True
     [(''blog'', exRoute [exPage ''blog'' ''winter'' 20230101 False [],
                          exPage ''blog'' ''spring'' 20230301 False []])] =
   Inr [(''blog'',
         \<lparr>Pages = [exPage ''blog'' ''spring'' 20230301 False [],
                   exPage ''blog'' ''winter'' 20230101 False []],
          IndexPage = None,
          ListPage = Some \<lparr>Path = ''blog'', ListPage.ArticlePages =
            [Some (exPage ''blog'' ''spring'' 20230301 False []),
             Some (exPage ''blog'' ''winter'' 20230101 False [])]\<rparr>\<rparr>)]
   \<and> Pages (exRoute [exPage ''blog'' ''winter'' 20230101 False [],
                      exPage ''blog'' ''spring'' 20230301 False []]) \<noteq>
       [exPage ''blog'' ''spring'' 20230301 False [],
        exPage ''blog'' ''winter'' 20230101 False []]"
proof -
  have len: "\<forall>pages. length (insertionSort dateAfter pages) = length pages"
    by (simp add: sortsByDate_length [OF sortsByDate_insertionSort])
  show ?thesis
    unfolding buildListPages_eq [of True insertionSort, OF len]
    by (simp add: listPageOf_def exRoute_def insertionSort_def dateAfter_def exPage_def
          exArticle_def slot_def)
qed

text \<open>
  Claim C8 as amended. When sorting is enabled, \<^verbatim>\<open>buildListPages\<close> sorts the page list of
  every route that has no index page in place, on the route's own slice and not on a copy,
  with \<^verbatim>\<open>sort.Slice\<close> by creation date, most recent first, and fills the list page from
  the sorted list. For every sort that keeps what \<^verbatim>\<open>sort.Slice\<close> promises, the pass
  succeeds and keeps the path of every route. A route without an index page ends with its
  page list replaced by the sorted one, which holds the same pages in descending date
  order, and with a list page that has the route's path and whose entries other than nil
  are, in order, exactly the visible pages of the sorted list; what stands at the index of
  a hidden page is outside this statement. A route with an index page is skipped: it is
  left as it was, its page list unsorted. The relative order of pages of equal date is
  whatever the sort leaves.
\<close>

theorem buildListPages_sorted:
  assumes "sortsByDate sortSlice"
  shows "\<exists>model'. buildListPages sortSlice True model = Inr model' \<and>
     list_all2 (\<lambda>(r, i) (r', i'). r' = r \<and>
        (IndexPage i \<noteq> None \<longrightarrow> i' = i) \<and>
        (IndexPage i = None \<longrightarrow>
           Pages i' = sortSlice dateAfter (Pages i) \<and>
           mset (Pages i') = mset (Pages i) \<and>
           sorted_wrt (\<lambda>a b. Date (ArticlePage.Article b) \<le> Date (ArticlePage.Article a)) (Pages i') \<and>
           IndexPage i' = None \<and>
           (\<exists>listPage. ListPage i' = Some listPage \<and> Path listPage = r \<and>
              entries listPage = filter visible (Pages i'))))
       model model'"
proof -
  have len: "\<forall>pages. length (sortSlice dateAfter pages) = length pages"
    by (simp add: sortsByDate_length [OF assms])
  have perm: "mset (sortSlice dateAfter pages) = mset pages" for pages
    using assms by (simp add: sortsByDate_def)
  have desc: "sorted_wrt (\<lambda>a b. Date (ArticlePage.Article b) \<le> Date (ArticlePage.Article a))
                (sortSlice dateAfter pages)" for pages
  proof -
    have "sorted_wrt (\<lambda>a b. \<not> dateAfter b a) (sortSlice dateAfter pages)"
      using assms by (simp add: sortsByDate_def)
    then show ?thesis by (simp add: dateAfter_def not_less)
  qed
  have "list_all2 (\<lambda>(r, i) (r', i'). r' = r \<and>
        (IndexPage i \<noteq> None \<longrightarrow> i' = i) \<and>
        (IndexPage i = None \<longrightarrow>
           Pages i' = sortSlice dateAfter (Pages i) \<and>
           mset (Pages i') = mset (Pages i) \<and>
           sorted_wrt (\<lambda>a b. Date (ArticlePage.Article b) \<le> Date (ArticlePage.Article a)) (Pages i') \<and>
           IndexPage i' = None \<and>
           (\<exists>listPage. ListPage i' = Some listPage \<and> Path listPage = r \<and>
              entries listPage = filter visible (Pages i'))))
       model (map (\<lambda>(r, i). (r, listPageOf sortSlice True r i)) model)"
    by (induction model)
       (auto simp: listPageOf_def perm desc entries_def map_filter_slot)
  then show ?thesis
    unfolding buildListPages_eq [of True sortSlice, OF len] by blast
qed

text \<open>
  With the insertion sort that \<^verbatim>\<open>sort.Slice\<close> runs on a short slice: a route without index
  page that holds a hidden article of January and a visible one of March ends with its
  pages in the order March, January and with a list page whose one entry other than nil is
  the page of March; a route with an index page keeps its pages in the order January,
  March.
\<close>

theorem buildListPages_sorted_witness:
  "sortsByDate insertionSort
   \<and> IndexPage (exRoute [exPage ''blog'' ''winter'' 20230101 True [],
                          exPage ''blog'' ''spring'' 20230301 False []]) = None
   \<and> IndexPage (exIndexRouteWith ''home'' [exPage ''home'' ''winter'' 20230101 False [],
                                            exPage ''home'' ''spring'' 20230301 False []]) \<noteq> None
   \<and> (\<exists>i' listPage.
         buildListPages insertionSort True
           [(''blog'', exRoute [exPage ''blog'' ''winter'' 20230101 True [],
                                exPage ''blog'' ''spring'' 20230301 False []]),
            (''home'', exIndexRouteWith ''home'' [exPage ''home'' ''winter'' 20230101 False [],
                                                  exPage ''home'' ''spring'' 20230301 False []])] =
         Inr [(''blog'', i'),
              (''home'', exIndexRouteWith ''home'' [exPage ''home'' ''winter'' 20230101 False [],
                                                    exPage ''home'' ''spring'' 20230301 False []])] \<and>
         Pages i' = [exPage ''blog'' ''spring'' 20230301 False [],
                     exPage ''blog'' ''winter'' 20230101 True []] \<and>
         sorted_wrt (\<lambda>a b. Date (ArticlePage.Article b) \<le> Date (ArticlePage.Article a)) (Pages i') \<and>
         ListPage i' = Some listPage \<and> Path listPage = ''blog'' \<and>
         entries listPage = [exPage ''blog'' ''spring'' 20230301 False []])"
proof -
  let ?i = "exRoute [exPage ''blog'' ''winter'' 20230101 True [],
                     exPage ''blog'' ''spring'' 20230301 False []]"
  let ?h = "exIndexRouteWith ''home'' [exPage ''home'' ''winter'' 20230101 False [],
                                       exPage ''home'' ''spring'' 20230301 False []]"
  have none: "IndexPage ?i = None"
    by (simp add: exRoute_def)
  have some: "IndexPage ?h \<noteq> None"
    by (simp add: exIndexRouteWith_def)
  have sorted: "insertionSort dateAfter (Pages ?i) =
                  [exPage ''blog'' ''spring'' 20230301 False [],
                   exPage ''blog'' ''winter'' 20230101 True []]"
    by (simp add: exRoute_def insertionSort_def dateAfter_def exPage_def exArticle_def)
  have vis: "filter visible [exPage ''blog'' ''spring'' 20230301 False [],
                             exPage ''blog'' ''winter'' 20230101 True []] =
               [exPage ''blog'' ''spring'' 20230301 False []]"
    by (simp add: visible_def exPage_def exArticle_def)
  obtain model' where run: "buildListPages insertionSort True [(''blog'', ?i), (''home'', ?h)] =
      Inr model'"
    and rel: "list_all2 (\<lambda>(r, i) (r', i'). r' = r \<and>
        (IndexPage i \<noteq> None \<longrightarrow> i' = i) \<and>
        (IndexPage i = None \<longrightarrow>
           Pages i' = insertionSort dateAfter (Pages i) \<and>
           mset (Pages i') = mset (Pages i) \<and>
           sorted_wrt (\<lambda>a b. Date (ArticlePage.Article b) \<le> Date (ArticlePage.Article a)) (Pages i') \<and>
           IndexPage i' = None \<and>
           (\<exists>listPage. ListPage i' = Some listPage \<and> Path listPage = r \<and>
              entries listPage = filter visible (Pages i'))))
       [(''blog'', ?i), (''home'', ?h)] model'"
    using buildListPages_sorted [OF sortsByDate_insertionSort, of "[(''blog'', ?i), (''home'', ?h)]"]
    by blast
  from rel obtain i' listPage where m: "model' = [(''blog'', i'), (''home'', ?h)]"
    and p: "Pages i' = insertionSort dateAfter (Pages ?i)"
    and s: "sorted_wrt (\<lambda>a b. Date (ArticlePage.Article b) \<le> Date (ArticlePage.Article a)) (Pages i')"
    and l: "ListPage i' = Some listPage" "Path listPage = ''blog''"
      "entries listPage = filter visible (Pages i')"
    using none some by (auto simp: list_all2_Cons1)
  have e: "entries listPage = [exPage ''blog'' ''spring'' 20230301 False []]"
    using l(3) p sorted vis by simp
  show ?thesis
    using sortsByDate_insertionSort none some run m p s sorted l(1,2) e by auto
qed

subsection \<open>The index page pass\<close>

lemma appendVisible_foldl:
  "foldl (\<lambda>acc page. if Hide (ArticlePage.Article page) then acc else acc @ [page]) acc pages =
   acc @ filter visible pages"
  by (induction pages arbitrary: acc) (simp_all add: visible_def)

lemma visiblePages_Cons:
  "visiblePages ((r, i) # model) = filter visible (Pages i) @ visiblePages model"
  by (simp add: visiblePages_def)

lemma visiblePages_append:
  "visiblePages (xs @ ys) = visiblePages xs @ visiblePages ys"
  by (simp add: visiblePages_def)

lemma walkInfos_appendVisible:
  "walkInfos appendVisible visited rest acc = Inr (visited @ rest, acc @ visiblePages rest)"
proof (induction rest arbitrary: visited acc)
  case Nil
  show ?case by (simp add: visiblePages_def)
next
  case (Cons route rest)
  obtain r i where route: "route = (r, i)" by (cases route)
  have step: "appendVisible (visited @ (r, i) # rest) r i acc =
                Inr (i, acc @ filter visible (Pages i))"
    by (simp add: appendVisible_def appendVisible_foldl)
  show ?case
    unfolding route walkInfos.simps step
    using Cons.IH [of "visited @ [(r, i)]" "acc @ filter visible (Pages i)"]
    by (simp add: visiblePages_Cons)
qed

lemma WalkRoutesInfo_appendVisible:
  "WalkRoutesInfo appendVisible model acc = Inr (model, acc @ visiblePages model)"
  by (simp add: WalkRoutesInfo_def walkInfos_appendVisible)

lemma indexPageFn_eq:
  "indexPageFn model r i st = Inr (snd (addToIndex (visiblePages model) (r, i)), st)"
  by (simp add: indexPageFn_def addToIndex_def WalkRoutesInfo_appendVisible split: option.split)

lemma addToIndex_fst: "fst (addToIndex pages route) = fst route"
  by (simp add: addToIndex_def split: option.split)

lemma addToIndex_Pages: "Pages (snd (addToIndex pages route)) = Pages (snd route)"
  by (simp add: addToIndex_def split: option.split)

lemma visiblePages_addToIndex:
  "visiblePages (map (addToIndex pages) model) = visiblePages model"
proof (induction model)
  case Nil
  show ?case by simp
next
  case (Cons route model)
  obtain r i where route: "route = (r, i)" by (cases route)
  obtain r' i' where upd: "addToIndex pages (r, i) = (r', i')" by (cases "addToIndex pages (r, i)")
  have "Pages i' = Pages i"
    using addToIndex_Pages [of pages "(r, i)"] upd by simp
  then show ?case
    using Cons.IH by (simp add: route upd visiblePages_Cons)
qed

text \<open>
  The outer walk: the routes already visited have their index pages extended, which
  leaves their page lists, and so the visible pages of the site, as they were.
\<close>

lemma walkInfos_indexPageFn:
  "walkInfos indexPageFn (map (addToIndex (visiblePages (seen @ rest))) seen) rest st =
   Inr (map (addToIndex (visiblePages (seen @ rest))) (seen @ rest), st)"
proof (induction rest arbitrary: seen)
  case Nil
  show ?case by simp
next
  case (Cons route rest)
  obtain r i where route: "route = (r, i)" by (cases route)
  let ?V = "visiblePages (seen @ (r, i) # rest)"
  have same: "visiblePages (map (addToIndex ?V) seen @ (r, i) # rest) = ?V"
    by (simp add: visiblePages_append visiblePages_addToIndex)
  have here: "(r, snd (addToIndex ?V (r, i))) = addToIndex ?V (r, i)"
    using addToIndex_fst [of ?V "(r, i)"] by (cases "addToIndex ?V (r, i)") simp
  have "walkInfos indexPageFn (map (addToIndex ?V) seen) ((r, i) # rest) st =
          walkInfos indexPageFn (map (addToIndex ?V) (seen @ [(r, i)])) rest st"
    by (simp add: indexPageFn_eq same here)
  also have "\<dots> = Inr (map (addToIndex ?V) ((seen @ [(r, i)]) @ rest), st)"
    using Cons.IH [of "seen @ [(r, i)]"] by simp
  finally show ?case by (simp add: route)
qed

text \<open>
  Claim C7. After \<^verbatim>\<open>addArticlePagesToIndexPages\<close> every route that has an index page has
  had every visible page of every route of the whole site appended to the aggregate list
  of its index page, and nothing else has changed: hidden pages are left out, and the
  pages added are the same for every index page, whatever its place in the tree.
\<close>

theorem addArticlePagesToIndexPages_site_wide:
  "addArticlePagesToIndexPages model = Inr (map (addToIndex (visiblePages model)) model)"
  using walkInfos_indexPageFn [of "[]" model "()"]
  by (simp add: addArticlePagesToIndexPages_def WalkRoutesInfo_def)

text \<open>
  The example of the claim: two routes with an index page and three visible articles in
  other routes, one of which also holds a hidden article. All three visible pages are in
  the aggregate of both index pages.
\<close>

theorem addArticlePagesToIndexPages_site_wide_witness:
  "addArticlePagesToIndexPages
     [(''a'', exIndexRoute ''a'' []),
      (''blog'', exRoute [exPage ''blog'' ''one'' 1 False [], exPage ''blog'' ''draft'' 2 True []]),
      (''b'', exIndexRoute ''b'' []),
      (''news'', exRoute [exPage ''news'' ''two'' 3 False [], exPage ''news'' ''three'' 4 False []])] =
   Inr [(''a'', exIndexRoute ''a''
           [exPage ''blog'' ''one'' 1 False [], exPage ''news'' ''two'' 3 False [],
            exPage ''news'' ''three'' 4 False []]),
        (''blog'', exRoute [exPage ''blog'' ''one'' 1 False [], exPage ''blog'' ''draft'' 2 True []]),
        (''b'', exIndexRoute ''b''
           [exPage ''blog'' ''one'' 1 False [], exPage ''news'' ''two'' 3 False [],
            exPage ''news'' ''three'' 4 False []]),
        (''news'', exRoute [exPage ''news'' ''two'' 3 False [], exPage ''news'' ''three'' 4 False []])]"
  unfolding addArticlePagesToIndexPages_site_wide
  by (simp add: addToIndex_def visiblePages_def visible_def exIndexRoute_def exIndexPage_def
        exRoute_def exPage_def exArticle_def)

subsection \<open>The related articles pass\<close>

lemma LastIndex_absent: "sep \<notin> set s \<Longrightarrow> strings_LastIndex s sep = - 1"
  by (simp add: strings_LastIndex_def)

lemma takeWhile_stops: "sep \<in> set s \<Longrightarrow> length (takeWhile (\<lambda>c. c \<noteq> sep) s) < length s"
  by (induction s) auto

lemma LastIndex_present:
  assumes "sep \<in> set s"
  shows "0 \<le> strings_LastIndex s sep \<and> strings_LastIndex s sep < int (length s)"
proof -
  have "length (takeWhile (\<lambda>c. c \<noteq> sep) (rev s)) < length (rev s)"
    using assms by (intro takeWhile_stops) simp
  then show ?thesis using assms by (simp add: strings_LastIndex_def)
qed

lemma link_without_slash:
  "CHR ''/'' \<notin> set link \<Longrightarrow>
   slice_to link (strings_LastIndex link CHR ''/'') = Inl SliceBoundsOutOfRange"
  by (simp add: LastIndex_absent slice_to_def)

lemma link_with_slash:
  assumes "CHR ''/'' \<in> set link"
  shows "\<exists>path ident. slice_to link (strings_LastIndex link CHR ''/'') = Inr path \<and>
           slice_from link (int (length path) + 1) = Inr ident"
proof -
  let ?k = "strings_LastIndex link CHR ''/''"
  have k: "0 \<le> ?k" "?k < int (length link)"
    using LastIndex_present [OF assms] by simp_all
  then have "slice_to link ?k = Inr (take (nat ?k) link)"
    by (simp add: slice_to_def)
  moreover have "slice_from link (int (length (take (nat ?k) link)) + 1) =
                   Inr (drop (nat (int (length (take (nat ?k) link)) + 1)) link)"
    using k by (simp add: slice_from_def)
  ultimately show ?thesis by blast
qed

lemma relatedLoop_cases:
  "(if list_all (\<lambda>link. CHR ''/'' \<in> set link) links
    then \<exists>article'. relatedLoop resolve links article = Inr article'
    else relatedLoop resolve links article = Inl SliceBoundsOutOfRange)"
proof (induction links arbitrary: article)
  case Nil
  show ?case by simp
next
  case (Cons link links)
  show ?case
  proof (cases "CHR ''/'' \<in> set link")
    case False
    then show ?thesis by (simp add: link_without_slash)
  next
    case True
    obtain path ident where "slice_to link (strings_LastIndex link CHR ''/'') = Inr path"
      and "slice_from link (int (length path) + 1) = Inr ident"
      using link_with_slash [OF True] by blast
    then show ?thesis
      using True Cons.IH [of "article\<lparr>RelatedPages := RelatedPages article @ [fst (resolve path ident)]\<rparr>"]
      by simp
  qed
qed

lemma relatedPages_cases:
  "(if list_all (\<lambda>p. list_all (\<lambda>link. CHR ''/'' \<in> set link) (Related (ArticlePage.Article p))) pages
    then \<exists>pages'. relatedPages resolve pages = Inr pages'
    else relatedPages resolve pages = Inl SliceBoundsOutOfRange)"
proof (induction pages)
  case Nil
  show ?case by simp
next
  case (Cons p pages)
  show ?case
    using Cons.IH
      relatedLoop_cases [of "Related (ArticlePage.Article p)" resolve "ArticlePage.Article p"]
    by (auto split: if_splits)
qed

lemma relatedFn_cases:
  "(if list_all (\<lambda>p. list_all (\<lambda>link. CHR ''/'' \<in> set link) (Related (ArticlePage.Article p))) (Pages i)
    then \<exists>i'. relatedFn resolve model r i st = Inr (i', st)
    else relatedFn resolve model r i st = Inl SliceBoundsOutOfRange)"
  using relatedPages_cases [of "Pages i" "resolve model"]
  by (auto simp: relatedFn_def split: if_splits)

lemma walkInfos_relatedFn_cases:
  "(if linksHaveSlash rest
    then \<exists>model'. walkInfos (relatedFn resolve) visited rest st = Inr (model', st)
    else walkInfos (relatedFn resolve) visited rest st = Inl SliceBoundsOutOfRange)"
proof (induction rest arbitrary: visited)
  case Nil
  show ?case by (simp add: linksHaveSlash_def)
next
  case (Cons route rest)
  obtain r i where route: "route = (r, i)" by (cases route)
  show ?case
    unfolding route
    using relatedFn_cases [of i resolve "visited @ (r, i) # rest" r st] Cons.IH
    by (auto simp: linksHaveSlash_def split: if_splits)
qed

text \<open>
  Claim C10. \<^verbatim>\<open>buildRelated\<close> returns exactly when every related link of every page of
  every route contains a slash. When some link has none, \<^verbatim>\<open>strings.LastIndex\<close> is \<open>-1\<close>,
  the slice expression has a negative bound and the pass panics with a slice bound out
  of range. This holds for every \<^verbatim>\<open>resolvePath\<close>.
\<close>

theorem buildRelated_returns_iff_links_have_slash:
  "((\<exists>model'. buildRelated resolve model = Inr model') \<longleftrightarrow> linksHaveSlash model)
   \<and> (buildRelated resolve model = Inl SliceBoundsOutOfRange \<longleftrightarrow> \<not> linksHaveSlash model)"
  using walkInfos_relatedFn_cases [of model resolve "[]" "()"]
  by (auto simp: buildRelated_def WalkRoutesInfo_def split: if_splits)

text \<open>
  A page whose only link is \<^verbatim>\<open>blog/post-1\<close> lets the pass return; a page with the link
  \<^verbatim>\<open>post-1\<close> makes it panic.
\<close>

theorem buildRelated_returns_iff_links_have_slash_witness:
  "linksHaveSlash [(''blog'', exRoute [exPage ''blog'' ''post-2'' 2 False [''blog/post-1'']])]
   \<and> (\<exists>model'. buildRelated resolvePath
          [(''blog'', exRoute [exPage ''blog'' ''post-2'' 2 False [''blog/post-1'']])] = Inr model')
   \<and> \<not> linksHaveSlash [(''blog'', exRoute [exPage ''blog'' ''post-2'' 2 False [''post-1'']])]
   \<and> buildRelated resolvePath
        [(''blog'', exRoute [exPage ''blog'' ''post-2'' 2 False [''post-1'']])] =
      Inl SliceBoundsOutOfRange"
proof -
  have good: "linksHaveSlash
      [(''blog'', exRoute [exPage ''blog'' ''post-2'' 2 False [''blog/post-1'']])]"
    by (simp add: linksHaveSlash_def exRoute_def exPage_def exArticle_def)
  have bad: "\<not> linksHaveSlash
      [(''blog'', exRoute [exPage ''blog'' ''post-2'' 2 False [''post-1'']])]"
    by (simp add: linksHaveSlash_def exRoute_def exPage_def exArticle_def)
  show ?thesis
    using good bad
      buildRelated_returns_iff_links_have_slash [of resolvePath
        "[(''blog'', exRoute [exPage ''blog'' ''post-2'' 2 False [''blog/post-1'']])]"]
      buildRelated_returns_iff_links_have_slash [of resolvePath
        "[(''blog'', exRoute [exPage ''blog'' ''post-2'' 2 False [''post-1'']])]"]
    by blast
qed

text \<open>
  Claim C2 fails on the code. The error of \<^verbatim>\<open>resolvePath\<close> is discarded and the page it
  returns is appended whatever it is, so a link that does not resolve appends a nil entry.
  Here \<^verbatim>\<open>post-2\<close> links to the registered \<^verbatim>\<open>blog/post-1\<close>, to an unknown article of a
  known route and to an unknown route: its back-reference list gets three entries, two of
  them nil, where the claim has one.
\<close>

theorem buildRelated_appends_nil_for_unresolved_link:
  "buildRelated resolvePath
     [(''blog'', exRoute [exPage ''blog'' ''post-1'' 1 False [],
                          exPage ''blog'' ''post-2'' 2 False
                            [''blog/post-1'', ''blog/missing'', ''nowhere/post-1'']])] =
   Inr [(''blog'',
         exRoute [exPage ''blog'' ''post-1'' 1 False [],
                  \<lparr>Path = ''blog'', ArticlePage.Article =
                     (exArticle ''post-2'' 2 False
                        [''blog/post-1'', ''blog/missing'', ''nowhere/post-1''])
                     \<lparr>RelatedPages := [Some (''blog'', ''post-1''), None, None]\<rparr>\<rparr>])]"
  by (simp add: buildRelated_def WalkRoutesInfo_def relatedFn_def resolvePath_def exRoute_def
        exPage_def exArticle_def strings_LastIndex_def slice_to_def slice_from_def)

subsection \<open>buildPage\<close>

lemma simplifiedPath_dot:
  "simplifiedPath ''.'' ContentDir file =
     (if length file < length ContentDir then Inl SliceBoundsOutOfRange
      else Inr (take (length ContentDir) file = ContentDir))"
  by (simp add: simplifiedPath_def slice_to_def)

lemma simplifiedPath_other:
  "buildPath \<noteq> ''.'' \<Longrightarrow> simplifiedPath buildPath ContentDir file = Inr False"
  by (simp add: simplifiedPath_def)

lemma take_shorter: "length file < length ContentDir \<Longrightarrow> take (length ContentDir) file \<noteq> ContentDir"
  by (metis length_take min.absorb1 nat_less_le)

text \<open>What \<^verbatim>\<open>buildPage\<close> does once the article is parsed.\<close>

lemma buildPage_parsed:
  assumes "ParseArticle source = Inr article"
  shows "buildPage ParseArticle ContentDir registerIndex buildPath model source file mode =
     (if length file < contentDirLen buildPath ContentDir file
      then (model, Inl (Panic SliceBoundsOutOfRange))
      else if strings_TrimSuffix (filepath_Base file) (filepath_Ext file) = ''index''
      then (registerIndex model
              \<lparr>Path = filepath_ToSlash (filepath_Dir (drop (contentDirLen buildPath ContentDir file) file)),
               IndexPage.Article =
                 article\<lparr>ID := strings_TrimSuffix (filepath_Base file) (filepath_Ext file)\<rparr>,
               IndexPage.ArticlePages = []\<rparr>,
            Inr \<lparr>Path = filepath_ToSlash (filepath_Dir (drop (contentDirLen buildPath ContentDir file) file)),
                 ArticlePage.Article =
                   article\<lparr>ID := strings_TrimSuffix (filepath_Base file) (filepath_Ext file)\<rparr>\<rparr>)
      else (registerPage model
              \<lparr>Path = filepath_ToSlash (filepath_Dir (drop (contentDirLen buildPath ContentDir file) file)),
               ArticlePage.Article =
                 article\<lparr>ID := strings_TrimSuffix (filepath_Base file) (filepath_Ext file)\<rparr>\<rparr>,
            Inr \<lparr>Path = filepath_ToSlash (filepath_Dir (drop (contentDirLen buildPath ContentDir file) file)),
                 ArticlePage.Article =
                   article\<lparr>ID := strings_TrimSuffix (filepath_Base file) (filepath_Ext file)\<rparr>\<rparr>))"
proof (cases "buildPath = ''.''")
  case dot: True
  show ?thesis
  proof (cases "length file < length ContentDir")
    case True
    then show ?thesis
      using take_shorter [OF True]
      by (simp add: buildPage_def assms dot simplifiedPath_dot contentDirLen_def)
  next
    case False
    then show ?thesis
      by (simp add: buildPage_def assms dot simplifiedPath_dot contentDirLen_def slice_from_def
            Let_def nat_add_distrib)
  qed
next
  case False
  then show ?thesis
    by (simp add: buildPage_def assms simplifiedPath_other contentDirLen_def slice_from_def Let_def
          nat_add_distrib)
qed

text \<open>
  Claim C3 fails on the code: \<^verbatim>\<open>buildPage\<close> never compares the start of the file path
  with the content root. With the build path \<^verbatim>\<open>my-site\<close> and the content directory
  \<^verbatim>\<open>content\<close>, the file \<^verbatim>\<open>elsewhere/posts/blog/post.md\<close> does not start with
  \<^verbatim>\<open>my-site/content\<close>; its first fifteen bytes are dropped all the same, the call returns
  the page \<^verbatim>\<open>post\<close> of the route \<^verbatim>\<open>/blog\<close> with no error, and the page is registered.
\<close>

theorem buildPage_unchecked_prefix_counterexample:
  "\<not> prefix (''my-site'' @ ''/'' @ ''content'') ''elsewhere/posts/blog/post.md''
   \<and> buildPage exParser ''content'' registerIndexPage ''my-site'' newSite ''text''
        ''elsewhere/posts/blog/post.md'' DirectRegister =
       (registerPage newSite (exPage ''/blog'' ''post'' 0 False []),
        Inr (exPage ''/blog'' ''post'' 0 False []))
   \<and> pagesAt (root (registerPage newSite (exPage ''/blog'' ''post'' 0 False []))) [[], ''blog''] =
       [exPage ''/blog'' ''post'' 0 False []]
   \<and> pagesAt (root newSite) [[], ''blog''] = []"
proof -
  have a: "\<not> prefix (''my-site'' @ ''/'' @ ''content'') ''elsewhere/posts/blog/post.md''"
    by simp
  have parsed: "exParser ''text'' = Inr (exArticle [] 0 False [])"
    by (simp add: exParser_def)
  have len: "contentDirLen ''my-site'' ''content'' ''elsewhere/posts/blog/post.md'' = 15"
    by (simp add: contentDirLen_def)
  have dir: "filepath_ToSlash (filepath_Dir (drop 15 ''elsewhere/posts/blog/post.md'')) = ''/blog''"
    by code_simp
  have ident: "strings_TrimSuffix (filepath_Base ''elsewhere/posts/blog/post.md'')
                 (filepath_Ext ''elsewhere/posts/blog/post.md'') = ''post''"
    by code_simp
  have b: "buildPage exParser ''content'' registerIndexPage ''my-site'' newSite ''text''
        ''elsewhere/posts/blog/post.md'' DirectRegister =
       (registerPage newSite (exPage ''/blog'' ''post'' 0 False []),
        Inr (exPage ''/blog'' ''post'' 0 False []))"
    unfolding buildPage_parsed [where ParseArticle = exParser and source = "''text''", OF parsed]
      len dir ident
    by (simp add: exPage_def exArticle_def)
  have split: "strings_Split (Path (exPage ''/blog'' ''post'' 0 False [])) CHR ''/'' = [[], ''blog'']"
    by (simp add: exPage_def)
  have c: "pagesAt (root (registerPage newSite (exPage ''/blog'' ''post'' 0 False []))) [[], ''blog''] =
       [exPage ''/blog'' ''post'' 0 False []]"
    unfolding root_registerPage split by (simp add: registerLoop_pagesAt pagesAt_newSite)
  from a b c show ?thesis by (simp add: pagesAt_newSite)
qed

text \<open>
  Claim C3 as amended. \<^verbatim>\<open>buildPage\<close> has no check of the content root and no
  malformed-path error. For a file path that does not start with the build path plus the
  content directory, once the article is parsed: if the file path is shorter than the
  number of bytes to drop, the slice expression panics and the site model is unchanged;
  otherwise that many leading bytes are dropped whatever they are, the page (or, for the
  id \<^verbatim>\<open>index\<close>, the index page) is registered under the directory of what is left, and
  the call returns the page with no error.
\<close>

theorem buildPage_no_prefix_check:
  assumes "ParseArticle source = Inr article"
    and "\<not> prefix (buildPath @ ''/'' @ ContentDir) file"
  shows "(length file < contentDirLen buildPath ContentDir file \<longrightarrow>
            buildPage ParseArticle ContentDir registerIndex buildPath model source file mode =
              (model, Inl (Panic SliceBoundsOutOfRange)))
   \<and> (contentDirLen buildPath ContentDir file \<le> length file \<longrightarrow>
        (\<exists>page. snd (buildPage ParseArticle ContentDir registerIndex buildPath model source file mode) =
                  Inr page
           \<and> Path page =
               filepath_ToSlash (filepath_Dir (drop (contentDirLen buildPath ContentDir file) file))
           \<and> ArticlePage.Article page =
               article\<lparr>ID := strings_TrimSuffix (filepath_Base file) (filepath_Ext file)\<rparr>
           \<and> fst (buildPage ParseArticle ContentDir registerIndex buildPath model source file mode) =
               (if ID (ArticlePage.Article page) = ''index''
                then registerIndex model
                       \<lparr>Path = Path page, IndexPage.Article = ArticlePage.Article page,
                        IndexPage.ArticlePages = []\<rparr>
                else registerPage model page)))"
  unfolding buildPage_parsed [where ParseArticle = ParseArticle and source = source, OF assms(1)]
  by simp

theorem buildPage_no_prefix_check_witness:
  "exParser ''text'' = Inr (exArticle [] 0 False [])
   \<and> \<not> prefix (''my-site'' @ ''/'' @ ''content'') ''elsewhere/posts/blog/post.md''
   \<and> contentDirLen ''my-site'' ''content'' ''elsewhere/posts/blog/post.md''
       \<le> length ''elsewhere/posts/blog/post.md''
   \<and> (\<exists>page. snd (buildPage exParser ''content'' registerIndexPage ''my-site'' newSite ''text''
                    ''elsewhere/posts/blog/post.md'' DirectRegister) = Inr page)
   \<and> \<not> prefix (''my-site'' @ ''/'' @ ''content'') ''post.md''
   \<and> length ''post.md'' < contentDirLen ''my-site'' ''content'' ''post.md''
   \<and> buildPage exParser ''content'' registerIndexPage ''my-site'' newSite ''text''
        ''post.md'' DirectRegister = (newSite, Inl (Panic SliceBoundsOutOfRange))"
proof -
  have parsed: "exParser ''text'' = Inr (exArticle [] 0 False [])"
    by (simp add: exParser_def)
  have long: "\<not> prefix (''my-site'' @ ''/'' @ ''content'') ''elsewhere/posts/blog/post.md''"
    by simp
  have short: "\<not> prefix (''my-site'' @ ''/'' @ ''content'') ''post.md''"
    by simp
  have len1: "contentDirLen ''my-site'' ''content'' ''elsewhere/posts/blog/post.md''
       \<le> length ''elsewhere/posts/blog/post.md''"
    by (simp add: contentDirLen_def)
  have len2: "length ''post.md'' < contentDirLen ''my-site'' ''content'' ''post.md''"
    by (simp add: contentDirLen_def)
  show ?thesis
    using parsed long short len1 len2
      buildPage_no_prefix_check [where ParseArticle = exParser and source = "''text''",
        OF parsed long, of registerIndexPage newSite DirectRegister]
      buildPage_no_prefix_check [where ParseArticle = exParser and source = "''text''",
        OF parsed short, of registerIndexPage newSite DirectRegister]
    by blast
qed


end
